theory Spec2Isabelle
  imports Main "HOL-Library.Word" "HOL-Library.Monad_Syntax"
begin

unbundle bit_operations_syntax

section \<open>Pixel buffers of background-image.c\<close>

text \<open>
  A buffer is the contiguous byte region behind an \<^verbatim>\<open>unsigned char *\<close>. Offsets are
  relative to the start of the buffer. An access that leaves the buffer is undefined in C;
  here it is the value \<open>None\<close>, and every operation built from accesses passes it on.
  Sizes, strides and loop counters are natural numbers. The first switch of
  \<^verbatim>\<open>load_background_from_buffer\<close> computes its offsets in \<^verbatim>\<open>size_t\<close>, which cannot
  overflow at an offset inside a buffer; the kernels compute theirs in \<^verbatim>\<open>int\<close>, and the
  model checks each of their products. A 32-bit access is allowed at every offset that
  leaves room for four bytes; alignment is not modelled.
\<close>

type_synonym byte = "8 word"
type_synonym buffer = "byte list"

definition load8 :: "buffer \<Rightarrow> nat \<Rightarrow> byte option" where
  "load8 buf i = (if i < length buf then Some (buf ! i) else None)"

text \<open>
  The 32-bit word with the given bytes, least significant first, and the four bytes of a
  \<^verbatim>\<open>uint32_t\<close> in memory, lowest address first. The host's byte order is the parameter
  \<open>le\<close> (\<open>True\<close> on a little-endian host).
\<close>

definition word32_le :: "byte \<Rightarrow> byte \<Rightarrow> byte \<Rightarrow> byte \<Rightarrow> 32 word" where
  "word32_le b0 b1 b2 b3 =
     ucast b0 OR push_bit 8 (ucast b1) OR push_bit 16 (ucast b2) OR push_bit 24 (ucast b3)"

definition bytes_of_word32 :: "bool \<Rightarrow> 32 word \<Rightarrow> byte list" where
  "bytes_of_word32 le w =
     (let bs = [ucast w, ucast (drop_bit 8 w), ucast (drop_bit 16 w), ucast (drop_bit 24 w)]
      in if le then bs else rev bs)"

text \<open>The 4-byte cell of a pixel that starts at offset \<open>i\<close>.\<close>

definition cell :: "buffer \<Rightarrow> nat \<Rightarrow> byte list" where
  "cell buf i = take 4 (drop i buf)"

definition word32_of_bytes :: "bool \<Rightarrow> byte list \<Rightarrow> 32 word" where
  "word32_of_bytes le bs =
     (if le then word32_le (bs ! 0) (bs ! 1) (bs ! 2) (bs ! 3)
      else word32_le (bs ! 3) (bs ! 2) (bs ! 1) (bs ! 0))"

definition load32 :: "bool \<Rightarrow> buffer \<Rightarrow> nat \<Rightarrow> 32 word option" where
  "load32 le buf i =
     (if i + 4 \<le> length buf then Some (word32_of_bytes le (cell buf i)) else None)"

text \<open>Overwriting the bytes of \<open>buf\<close> from offset \<open>i\<close> on with \<open>bs\<close>.\<close>

definition patch :: "buffer \<Rightarrow> nat \<Rightarrow> byte list \<Rightarrow> buffer" where
  "patch buf i bs = take i buf @ bs @ drop (i + length bs) buf"

definition store32 :: "bool \<Rightarrow> buffer \<Rightarrow> nat \<Rightarrow> 32 word \<Rightarrow> buffer option" where
  "store32 le buf i w =
     (if i + 4 \<le> length buf then Some (patch buf i (bytes_of_word32 le w)) else None)"

text \<open>\<^verbatim>\<open>memcpy(dest + d, src + s, n)\<close> between two buffers that do not overlap.\<close>

definition memcpy :: "buffer \<Rightarrow> nat \<Rightarrow> buffer \<Rightarrow> nat \<Rightarrow> nat \<Rightarrow> buffer option" where
  "memcpy dest d src s n =
     (if d + n \<le> length dest \<and> s + n \<le> length src
      then Some (patch dest d (take n (drop s src)))
      else None)"

text \<open>\<^verbatim>\<open>le32toh\<close>: the identity on a little-endian host, a byte swap on a big-endian one.\<close>

definition bswap32 :: "32 word \<Rightarrow> 32 word" where
  "bswap32 w =
     word32_le (ucast (drop_bit 24 w)) (ucast (drop_bit 16 w)) (ucast (drop_bit 8 w)) (ucast w)"

definition le32toh :: "bool \<Rightarrow> 32 word \<Rightarrow> 32 word" where
  "le32toh le w = (if le then w else bswap32 w)"

text \<open>
  A counted \<^verbatim>\<open>for\<close> loop over the listed values of its counter, threading the state and
  stopping at the first failed access.
\<close>

fun for_loop :: "nat list \<Rightarrow> (nat \<Rightarrow> 's \<Rightarrow> 's option) \<Rightarrow> 's \<Rightarrow> 's option" where
  "for_loop [] body s = Some s"
| "for_loop (i # is) body s =
     (case body i s of None \<Rightarrow> None | Some s' \<Rightarrow> for_loop is body s')"

section \<open>Format kernels\<close>

text \<open>The value each kernel stores, as a function of what it read.\<close>

definition rgb24_word :: "byte \<Rightarrow> byte \<Rightarrow> byte \<Rightarrow> 32 word" where
  "rgb24_word hi mid lo = 0 OR push_bit 16 (ucast hi) OR push_bit 8 (ucast mid) OR ucast lo"

definition xrgb2101010_pixel :: "32 word \<Rightarrow> 32 word" where
  "xrgb2101010_pixel color =
     0 OR push_bit 16 (drop_bit 22 color AND 0xFF)
       OR push_bit 8 (drop_bit 12 color AND 0xFF)
       OR (drop_bit 2 color AND 0xFF)"

definition xbgr2101010_pixel :: "32 word \<Rightarrow> 32 word" where
  "xbgr2101010_pixel color =
     0 OR push_bit 16 (drop_bit 2 color AND 0xFF)
       OR push_bit 8 (drop_bit 12 color AND 0xFF)
       OR (drop_bit 22 color AND 0xFF)"

definition rgbx1010102_pixel :: "32 word \<Rightarrow> 32 word" where
  "rgbx1010102_pixel color =
     0 OR push_bit 16 (drop_bit 24 color AND 0xFF)
       OR push_bit 8 (drop_bit 14 color AND 0xFF)
       OR (drop_bit 4 color AND 0xFF)"

definition bgrx1010102_pixel :: "32 word \<Rightarrow> 32 word" where
  "bgrx1010102_pixel color =
     0 OR push_bit 16 (drop_bit 4 color AND 0xFF)
       OR push_bit 8 (drop_bit 14 color AND 0xFF)
       OR (drop_bit 24 color AND 0xFF)"

text \<open>One iteration of the inner loop of each kernel, at byte offset \<open>pix\<close>.\<close>

definition xrgb32_le_step :: "bool \<Rightarrow> buffer \<Rightarrow> nat \<Rightarrow> buffer option" where
  "xrgb32_le_step le buf pix =
     do { p2 \<leftarrow> load8 buf (pix + 2);
          p1 \<leftarrow> load8 buf (pix + 1);
          p0 \<leftarrow> load8 buf pix;
          store32 le buf pix (rgb24_word p2 p1 p0) }"

definition xbgr32_le_step :: "bool \<Rightarrow> buffer \<Rightarrow> nat \<Rightarrow> buffer option" where
  "xbgr32_le_step le buf pix =
     do { p0 \<leftarrow> load8 buf pix;
          p1 \<leftarrow> load8 buf (pix + 1);
          p2 \<leftarrow> load8 buf (pix + 2);
          store32 le buf pix (rgb24_word p0 p1 p2) }"

definition packed10_step :: "(32 word \<Rightarrow> 32 word) \<Rightarrow> bool \<Rightarrow> buffer \<Rightarrow> nat \<Rightarrow> buffer option" where
  "packed10_step conv le buf pix =
     do { v \<leftarrow> load32 le buf pix;
          let color = le32toh le v;
          store32 le buf pix (conv color) }"

definition bgr888_le_step :: "bool \<Rightarrow> buffer \<Rightarrow> nat \<Rightarrow> nat \<Rightarrow> buffer option" where
  "bgr888_le_step le buf srcpix dstpix =
     do { s0 \<leftarrow> load8 buf srcpix;
          s1 \<leftarrow> load8 buf (srcpix + 1);
          s2 \<leftarrow> load8 buf (srcpix + 2);
          store32 le buf dstpix (rgb24_word s0 s1 s2) }"

text \<open>
  The kernels take the width, the height and the stride as C \<^verbatim>\<open>int\<close>. The model has them
  as natural numbers, the non-negative values that cairo's getters return. A number that
  no \<^verbatim>\<open>int\<close> holds is not an argument that the function can receive: the model gives
  \<open>None\<close> for it. The offset of a pixel is \<^verbatim>\<open>buf + y * stride + x * 4\<close>: two products
  computed in \<^verbatim>\<open>int\<close>, where an overflow is undefined (\<open>None\<close> again), each added to the
  pointer.
\<close>

definition INT_MAX :: nat where
  "INT_MAX = 2147483647"

definition int_args :: "nat \<Rightarrow> nat \<Rightarrow> nat \<Rightarrow> bool" where
  "int_args width height stride \<longleftrightarrow> width \<le> INT_MAX \<and> height \<le> INT_MAX \<and> stride \<le> INT_MAX"

definition int_mul :: "nat \<Rightarrow> nat \<Rightarrow> nat option" where
  "int_mul a b = (if a * b \<le> INT_MAX then Some (a * b) else None)"

definition cairo_rgb24_from_xrgb32_le :: "bool \<Rightarrow> buffer \<Rightarrow> nat \<Rightarrow> nat \<Rightarrow> nat \<Rightarrow> buffer option" where
  "cairo_rgb24_from_xrgb32_le le buf width height stride =
     (if int_args width height stride
      then for_loop [0..<height] (\<lambda>y.
             for_loop [0..<width] (\<lambda>x b.
               do { row \<leftarrow> int_mul y stride;
                    col \<leftarrow> int_mul x 4;
                    xrgb32_le_step le b (row + col) })) buf
      else None)"

definition cairo_rgb24_from_xbgr32_le :: "bool \<Rightarrow> buffer \<Rightarrow> nat \<Rightarrow> nat \<Rightarrow> nat \<Rightarrow> buffer option" where
  "cairo_rgb24_from_xbgr32_le le buf width height stride =
     (if int_args width height stride
      then for_loop [0..<height] (\<lambda>y.
             for_loop [0..<width] (\<lambda>x b.
               do { row \<leftarrow> int_mul y stride;
                    col \<leftarrow> int_mul x 4;
                    xbgr32_le_step le b (row + col) })) buf
      else None)"

definition cairo_rgb24_from_xrgb2101010_le :: "bool \<Rightarrow> buffer \<Rightarrow> nat \<Rightarrow> nat \<Rightarrow> nat \<Rightarrow> buffer option" where
  "cairo_rgb24_from_xrgb2101010_le le buf width height stride =
     (if int_args width height stride
      then for_loop [0..<height] (\<lambda>y.
             for_loop [0..<width] (\<lambda>x b.
               do { row \<leftarrow> int_mul y stride;
                    col \<leftarrow> int_mul x 4;
                    packed10_step xrgb2101010_pixel le b (row + col) })) buf
      else None)"

definition cairo_rgb24_from_xbgr2101010_le :: "bool \<Rightarrow> buffer \<Rightarrow> nat \<Rightarrow> nat \<Rightarrow> nat \<Rightarrow> buffer option" where
  "cairo_rgb24_from_xbgr2101010_le le buf width height stride =
     (if int_args width height stride
      then for_loop [0..<height] (\<lambda>y.
             for_loop [0..<width] (\<lambda>x b.
               do { row \<leftarrow> int_mul y stride;
                    col \<leftarrow> int_mul x 4;
                    packed10_step xbgr2101010_pixel le b (row + col) })) buf
      else None)"

definition cairo_rgb24_from_rgbx1010102_le :: "bool \<Rightarrow> buffer \<Rightarrow> nat \<Rightarrow> nat \<Rightarrow> nat \<Rightarrow> buffer option" where
  "cairo_rgb24_from_rgbx1010102_le le buf width height stride =
     (if int_args width height stride
      then for_loop [0..<height] (\<lambda>y.
             for_loop [0..<width] (\<lambda>x b.
               do { row \<leftarrow> int_mul y stride;
                    col \<leftarrow> int_mul x 4;
                    packed10_step rgbx1010102_pixel le b (row + col) })) buf
      else None)"

definition cairo_rgb24_from_bgrx1010102_le :: "bool \<Rightarrow> buffer \<Rightarrow> nat \<Rightarrow> nat \<Rightarrow> nat \<Rightarrow> buffer option" where
  "cairo_rgb24_from_bgrx1010102_le le buf width height stride =
     (if int_args width height stride
      then for_loop [0..<height] (\<lambda>y.
             for_loop [0..<width] (\<lambda>x b.
               do { row \<leftarrow> int_mul y stride;
                    col \<leftarrow> int_mul x 4;
                    packed10_step bgrx1010102_pixel le b (row + col) })) buf
      else None)"

text \<open>
  The row runs from back to front: \<^verbatim>\<open>for (int x = width-1; x >= 0; --x)\<close>. The source
  and the destination pixel each have their offset computed.
\<close>

definition cairo_rgb24_from_bgr888_le :: "bool \<Rightarrow> buffer \<Rightarrow> nat \<Rightarrow> nat \<Rightarrow> nat \<Rightarrow> buffer option" where
  "cairo_rgb24_from_bgr888_le le buf width height stride =
     (if int_args width height stride
      then for_loop [0..<height] (\<lambda>y.
             for_loop (rev [0..<width]) (\<lambda>x b.
               do { srcrow \<leftarrow> int_mul y stride;
                    srccol \<leftarrow> int_mul x 3;
                    dstrow \<leftarrow> int_mul y stride;
                    dstcol \<leftarrow> int_mul x 4;
                    bgr888_le_step le b (srcrow + srccol) (dstrow + dstcol) })) buf
      else None)"

definition cairo_rgb24_swap_rb :: "bool \<Rightarrow> buffer \<Rightarrow> nat \<Rightarrow> nat \<Rightarrow> nat \<Rightarrow> buffer option" where
  "cairo_rgb24_swap_rb le buf width height stride =
     (if int_args width height stride
      then for_loop [0..<height] (\<lambda>y.
             for_loop [0..<width] (\<lambda>x b.
               do { row \<leftarrow> int_mul y stride;
                    col \<leftarrow> int_mul x 4;
                    xbgr32_le_step le b (row + col) })) buf
      else None)"

text \<open>
  The height and the stride are \<^verbatim>\<open>int\<close>s, and so is the number of bytes of the rows: no
  product in a kernel overflows.
\<close>

definition int_sized :: "nat \<Rightarrow> nat \<Rightarrow> bool" where
  "int_sized height stride \<longleftrightarrow>
     height \<le> INT_MAX \<and> stride \<le> INT_MAX \<and> height * stride \<le> INT_MAX"

section \<open>Background modes\<close>

datatype background_mode =
    BACKGROUND_MODE_STRETCH
  | BACKGROUND_MODE_FILL
  | BACKGROUND_MODE_FIT
  | BACKGROUND_MODE_CENTER
  | BACKGROUND_MODE_TILE
  | BACKGROUND_MODE_SOLID_COLOR
  | BACKGROUND_MODE_INVALID

text \<open>
  A line handed to \<^verbatim>\<open>swaylock_log\<close>: the importance, the format string and its arguments.
\<close>

datatype log_importance = LOG_ERROR
datatype log_arg = Arg_string string | Arg_uint "32 word"
type_synonym log_line = "log_importance \<times> string \<times> log_arg list"

text \<open>
  \<^verbatim>\<open>strcmp\<close> on the characters before the terminating NUL: zero on equal strings, else the
  sign of the first difference, the characters compared as unsigned.
\<close>

fun strcmp :: "string \<Rightarrow> string \<Rightarrow> int" where
  "strcmp [] [] = 0"
| "strcmp [] (b # bs) = - 1"
| "strcmp (a # as) [] = 1"
| "strcmp (a # as) (b # bs) =
     (if a = b then strcmp as bs
      else if (of_char a :: nat) < of_char b then - 1 else 1)"

definition parse_background_mode :: "string \<Rightarrow> log_line list \<Rightarrow> background_mode \<times> log_line list" where
  "parse_background_mode mode log =
     (if strcmp mode ''stretch'' = 0 then (BACKGROUND_MODE_STRETCH, log)
      else if strcmp mode ''fill'' = 0 then (BACKGROUND_MODE_FILL, log)
      else if strcmp mode ''fit'' = 0 then (BACKGROUND_MODE_FIT, log)
      else if strcmp mode ''center'' = 0 then (BACKGROUND_MODE_CENTER, log)
      else if strcmp mode ''tile'' = 0 then (BACKGROUND_MODE_TILE, log)
      else if strcmp mode ''solid_color'' = 0 then (BACKGROUND_MODE_SOLID_COLOR, log)
      else (BACKGROUND_MODE_INVALID,
            log @ [(LOG_ERROR, ''Unsupported background mode: %s'', [Arg_string mode])]))"

section \<open>Transforms\<close>

datatype wl_output_transform =
    WL_OUTPUT_TRANSFORM_NORMAL
  | WL_OUTPUT_TRANSFORM_90
  | WL_OUTPUT_TRANSFORM_180
  | WL_OUTPUT_TRANSFORM_270
  | WL_OUTPUT_TRANSFORM_FLIPPED
  | WL_OUTPUT_TRANSFORM_FLIPPED_90
  | WL_OUTPUT_TRANSFORM_FLIPPED_180
  | WL_OUTPUT_TRANSFORM_FLIPPED_270

text \<open>
  \<^verbatim>\<open>*((uint32_t *)(destbuf + desty * deststride) + destx) =
     *((uint32_t *)(srcbuf + srcy * srcstride) + srcx)\<close>,
  with the two byte offsets already computed.
\<close>

definition copy_pixel :: "bool \<Rightarrow> buffer \<Rightarrow> nat \<Rightarrow> buffer \<Rightarrow> nat \<Rightarrow> buffer option" where
  "copy_pixel le srcbuf s destbuf d =
     do { v \<leftarrow> load32 le srcbuf s; store32 le destbuf d v }"

text \<open>
  The first \<^verbatim>\<open>switch\<close> of \<^verbatim>\<open>load_background_from_buffer\<close>: it fills the destination
  buffer from the source buffer, one case for each transform.
\<close>

fun transform_switch ::
  "bool \<Rightarrow> wl_output_transform \<Rightarrow> buffer \<Rightarrow> nat \<Rightarrow> buffer \<Rightarrow> nat \<Rightarrow> nat \<Rightarrow> nat \<Rightarrow> buffer option"
where
  "transform_switch le WL_OUTPUT_TRANSFORM_NORMAL srcbuf srcstride destbuf destwidth destheight deststride =
     (let minstride = (if srcstride < deststride then srcstride else deststride) in
      if srcstride = deststride
      then memcpy destbuf 0 srcbuf 0 (destheight * deststride)
      else for_loop [0..<destheight] (\<lambda>y d.
             memcpy d (y * deststride) srcbuf (y * srcstride) minstride) destbuf)"
| "transform_switch le WL_OUTPUT_TRANSFORM_90 srcbuf srcstride destbuf destwidth destheight deststride =
     for_loop [0..<destheight] (\<lambda>desty.
       let srcx = desty in
       for_loop [0..<destwidth] (\<lambda>destx d.
         let srcy = destwidth - destx - 1 in
         copy_pixel le srcbuf (srcy * srcstride + srcx * 4) d (desty * deststride + destx * 4))) destbuf"
| "transform_switch le WL_OUTPUT_TRANSFORM_180 srcbuf srcstride destbuf destwidth destheight deststride =
     for_loop [0..<destheight] (\<lambda>desty.
       let srcy = destheight - desty - 1 in
       for_loop [0..<destwidth] (\<lambda>destx d.
         let srcx = destwidth - destx - 1 in
         copy_pixel le srcbuf (srcy * srcstride + srcx * 4) d (desty * deststride + destx * 4))) destbuf"
| "transform_switch le WL_OUTPUT_TRANSFORM_270 srcbuf srcstride destbuf destwidth destheight deststride =
     for_loop [0..<destheight] (\<lambda>desty.
       let srcx = destheight - desty - 1 in
       for_loop [0..<destwidth] (\<lambda>destx d.
         let srcy = destx in
         copy_pixel le srcbuf (srcy * srcstride + srcx * 4) d (desty * deststride + destx * 4))) destbuf"
| "transform_switch le WL_OUTPUT_TRANSFORM_FLIPPED srcbuf srcstride destbuf destwidth destheight deststride =
     for_loop [0..<destheight] (\<lambda>desty.
       let srcy = desty in
       for_loop [0..<destwidth] (\<lambda>destx d.
         let srcx = destwidth - destx - 1 in
         copy_pixel le srcbuf (srcy * srcstride + srcx * 4) d (desty * deststride + destx * 4))) destbuf"
| "transform_switch le WL_OUTPUT_TRANSFORM_FLIPPED_90 srcbuf srcstride destbuf destwidth destheight deststride =
     for_loop [0..<destheight] (\<lambda>desty.
       let srcx = desty in
       for_loop [0..<destwidth] (\<lambda>destx d.
         let srcy = destx in
         copy_pixel le srcbuf (srcy * srcstride + srcx * 4) d (desty * deststride + destx * 4))) destbuf"
| "transform_switch le WL_OUTPUT_TRANSFORM_FLIPPED_180 srcbuf srcstride destbuf destwidth destheight deststride =
     (let minstride = (if srcstride < deststride then srcstride else deststride) in
      for_loop [0..<destheight] (\<lambda>desty d.
        let srcy = destheight - desty - 1 in
        memcpy d (desty * deststride) srcbuf (srcy * srcstride) minstride) destbuf)"
| "transform_switch le WL_OUTPUT_TRANSFORM_FLIPPED_270 srcbuf srcstride destbuf destwidth destheight deststride =
     for_loop [0..<destheight] (\<lambda>desty.
       let srcx = destheight - desty - 1 in
       for_loop [0..<destwidth] (\<lambda>destx d.
         let srcy = destwidth - destx - 1 in
         copy_pixel le srcbuf (srcy * srcstride + srcx * 4) d (desty * deststride + destx * 4))) destbuf"

text \<open>
  The source pixel \<open>(srcx, srcy)\<close> that each case of the switch reads for the destination
  pixel \<open>(destx, desty)\<close>. In the two cases that copy whole rows, a pixel keeps its place
  in its row.
\<close>

fun source_pixel :: "wl_output_transform \<Rightarrow> nat \<Rightarrow> nat \<Rightarrow> nat \<Rightarrow> nat \<Rightarrow> nat \<times> nat" where
  "source_pixel WL_OUTPUT_TRANSFORM_NORMAL destwidth destheight destx desty = (destx, desty)"
| "source_pixel WL_OUTPUT_TRANSFORM_90 destwidth destheight destx desty =
     (desty, destwidth - destx - 1)"
| "source_pixel WL_OUTPUT_TRANSFORM_180 destwidth destheight destx desty =
     (destwidth - destx - 1, destheight - desty - 1)"
| "source_pixel WL_OUTPUT_TRANSFORM_270 destwidth destheight destx desty =
     (destheight - desty - 1, destx)"
| "source_pixel WL_OUTPUT_TRANSFORM_FLIPPED destwidth destheight destx desty =
     (destwidth - destx - 1, desty)"
| "source_pixel WL_OUTPUT_TRANSFORM_FLIPPED_90 destwidth destheight destx desty = (desty, destx)"
| "source_pixel WL_OUTPUT_TRANSFORM_FLIPPED_180 destwidth destheight destx desty =
     (destx, destheight - desty - 1)"
| "source_pixel WL_OUTPUT_TRANSFORM_FLIPPED_270 destwidth destheight destx desty =
     (destheight - desty - 1, destwidth - destx - 1)"

text \<open>
  \<^verbatim>\<open>rotated\<close> of \<^verbatim>\<open>load_background_from_buffer\<close>: the transforms whose destination has
  the source's width as its height.
\<close>

definition rotated :: "wl_output_transform \<Rightarrow> bool" where
  "rotated transform =
     (transform = WL_OUTPUT_TRANSFORM_90 \<or>
      transform = WL_OUTPUT_TRANSFORM_270 \<or>
      transform = WL_OUTPUT_TRANSFORM_FLIPPED_90 \<or>
      transform = WL_OUTPUT_TRANSFORM_FLIPPED_270)"

text \<open>The transform that undoes each transform.\<close>

fun inverse_transform :: "wl_output_transform \<Rightarrow> wl_output_transform" where
  "inverse_transform WL_OUTPUT_TRANSFORM_90 = WL_OUTPUT_TRANSFORM_270"
| "inverse_transform WL_OUTPUT_TRANSFORM_270 = WL_OUTPUT_TRANSFORM_90"
| "inverse_transform t = t"

section \<open>Loading a background from a buffer\<close>

datatype wl_shm_format =
    WL_SHM_FORMAT_ARGB8888
  | WL_SHM_FORMAT_XRGB8888
  | WL_SHM_FORMAT_XBGR8888
  | WL_SHM_FORMAT_ABGR8888
  | WL_SHM_FORMAT_XRGB2101010
  | WL_SHM_FORMAT_ARGB2101010
  | WL_SHM_FORMAT_XBGR2101010
  | WL_SHM_FORMAT_ABGR2101010
  | WL_SHM_FORMAT_RGBX1010102
  | WL_SHM_FORMAT_RGBA1010102
  | WL_SHM_FORMAT_BGRX1010102
  | WL_SHM_FORMAT_BGRA1010102
  | WL_SHM_FORMAT_BGR888
  | WL_SHM_FORMAT_RGB888
  | WL_SHM_FORMAT_other "32 word"

text \<open>
  What the source reads of a \<^verbatim>\<open>cairo_surface_t\<close>: its data, width, height and stride.
\<close>

record cairo_surface =
  surface_data :: buffer
  surface_width :: nat
  surface_height :: nat
  surface_stride :: nat

text \<open>
  The second \<^verbatim>\<open>switch\<close> of \<^verbatim>\<open>load_background_from_buffer\<close>: the kernel for each format.
  The last three cases are the \<^verbatim>\<open>default\<close> label falling through to XRGB8888 and
  ARGB8888, where the kernel runs only on a host that is not little-endian.
\<close>

fun format_switch ::
  "bool \<Rightarrow> wl_shm_format \<Rightarrow> buffer \<Rightarrow> nat \<Rightarrow> nat \<Rightarrow> nat \<Rightarrow> buffer option"
where
  "format_switch le WL_SHM_FORMAT_XBGR8888 d w h stride = cairo_rgb24_from_xbgr32_le le d w h stride"
| "format_switch le WL_SHM_FORMAT_ABGR8888 d w h stride = cairo_rgb24_from_xbgr32_le le d w h stride"
| "format_switch le WL_SHM_FORMAT_XRGB2101010 d w h stride = cairo_rgb24_from_xrgb2101010_le le d w h stride"
| "format_switch le WL_SHM_FORMAT_ARGB2101010 d w h stride = cairo_rgb24_from_xrgb2101010_le le d w h stride"
| "format_switch le WL_SHM_FORMAT_XBGR2101010 d w h stride = cairo_rgb24_from_xbgr2101010_le le d w h stride"
| "format_switch le WL_SHM_FORMAT_ABGR2101010 d w h stride = cairo_rgb24_from_xbgr2101010_le le d w h stride"
| "format_switch le WL_SHM_FORMAT_RGBX1010102 d w h stride = cairo_rgb24_from_rgbx1010102_le le d w h stride"
| "format_switch le WL_SHM_FORMAT_RGBA1010102 d w h stride = cairo_rgb24_from_rgbx1010102_le le d w h stride"
| "format_switch le WL_SHM_FORMAT_BGRX1010102 d w h stride = cairo_rgb24_from_bgrx1010102_le le d w h stride"
| "format_switch le WL_SHM_FORMAT_BGRA1010102 d w h stride = cairo_rgb24_from_bgrx1010102_le le d w h stride"
| "format_switch le WL_SHM_FORMAT_BGR888 d w h stride = cairo_rgb24_from_bgr888_le le d w h stride"
| "format_switch le WL_SHM_FORMAT_RGB888 d w h stride =
     do { d' \<leftarrow> cairo_rgb24_from_bgr888_le le d w h stride;
          cairo_rgb24_swap_rb le d' w h stride }"
| "format_switch le (WL_SHM_FORMAT_other v) d w h stride =
     (let is_little_endian = le in
      if \<not> is_little_endian then cairo_rgb24_from_xrgb32_le le d w h stride else Some d)"
| "format_switch le WL_SHM_FORMAT_XRGB8888 d w h stride =
     (let is_little_endian = le in
      if \<not> is_little_endian then cairo_rgb24_from_xrgb32_le le d w h stride else Some d)"
| "format_switch le WL_SHM_FORMAT_ARGB8888 d w h stride =
     (let is_little_endian = le in
      if \<not> is_little_endian then cairo_rgb24_from_xrgb32_le le d w h stride else Some d)"

fun format_log :: "wl_shm_format \<Rightarrow> log_line list" where
  "format_log (WL_SHM_FORMAT_other v) =
     [(LOG_ERROR, ''Unknown pixel format: %u. Assuming XRGB32. Colors may look wrong.'', [Arg_uint v])]"
| "format_log f = []"

text \<open>
  The function returns the surface, or \<^verbatim>\<open>NULL\<close> when no surface could be created; an
  access outside a buffer is the third outcome.
\<close>

datatype load_error = Null_surface | Out_of_bounds

text \<open>
  \<^verbatim>\<open>cairo_image_surface_create(CAIRO_FORMAT_RGB24, w, h)\<close> belongs to the cairo library;
  it is the parameter \<open>create\<close>, which returns the new surface or \<open>None\<close> for \<^verbatim>\<open>NULL\<close>.
  The result is the lines logged and the outcome.
\<close>

definition load_background_from_buffer ::
  "bool \<Rightarrow> (nat \<Rightarrow> nat \<Rightarrow> cairo_surface option) \<Rightarrow> buffer \<Rightarrow> wl_shm_format \<Rightarrow>
   nat \<Rightarrow> nat \<Rightarrow> nat \<Rightarrow> wl_output_transform \<Rightarrow> log_line list \<times> (load_error + cairo_surface)"
where
  "load_background_from_buffer le create buf format width height stride transform =
     (let created = (if rotated transform then create height width else create width height)
      in case created of
           None \<Rightarrow> ([(LOG_ERROR, ''Failed to create image..'', [])], Inl Null_surface)
         | Some image_surface \<Rightarrow>
             (let destbuf = surface_data image_surface;
                  destwidth = surface_width image_surface;
                  destheight = surface_height image_surface;
                  deststride = surface_stride image_surface;
                  srcbuf = buf;
                  srcstride = stride
              in case transform_switch le transform srcbuf srcstride
                        destbuf destwidth destheight deststride of
                   None \<Rightarrow> ([], Inl Out_of_bounds)
                 | Some d \<Rightarrow>
                     (case format_switch le format d (surface_width image_surface)
                             (surface_height image_surface) (surface_stride image_surface) of
                        None \<Rightarrow> (format_log format, Inl Out_of_bounds)
                      | Some d' \<Rightarrow> (format_log format, Inr (image_surface\<lparr>surface_data := d'\<rparr>)))))"

text \<open>
  What the function needs of the surface created for \<open>w\<close> by \<open>h\<close> pixels: it has that
  width and that height, and its buffer holds \<open>h\<close> rows of at least \<open>w\<close> cells.
\<close>

definition holds_image :: "nat \<Rightarrow> nat \<Rightarrow> cairo_surface \<Rightarrow> bool" where
  "holds_image w h s \<longleftrightarrow>
     surface_width s = w \<and> surface_height s = h \<and>
     w * 4 \<le> surface_stride s \<and> h * surface_stride s \<le> length (surface_data s)"

text \<open>
  A surface as cairo creates it for \<^verbatim>\<open>CAIRO_FORMAT_RGB24\<close>: four bytes for each pixel,
  rows without padding, all bytes zero. It is the allocator of the worked examples.
\<close>

definition rgb24_surface :: "nat \<Rightarrow> nat \<Rightarrow> cairo_surface option" where
  "rgb24_surface w h =
     Some \<lparr>surface_data = replicate (w * 4 * h) 0, surface_width = w,
           surface_height = h, surface_stride = w * 4\<rparr>"

section \<open>The per-pixel coordinate map of the specification\<close>

text \<open>
  Following the spec's words (section 4.1): a transform is a coordinate map
  \<open>(destX, destY) \<rightarrow> (srcX, srcY)\<close> applied uniformly across all destination pixels,
  reading one 4-byte cell and writing one 4-byte cell. The two maps below are the rows
  of its table for the identity (\<open>srcX = destX\<close>, \<open>srcY = destY\<close>) and for flip+180
  (\<open>srcX = destX\<close>, \<open>srcY = destHeight - destY - 1\<close>).
\<close>

definition spec_per_pixel_copy ::
  "bool \<Rightarrow> (nat \<Rightarrow> nat \<Rightarrow> nat \<times> nat) \<Rightarrow> buffer \<Rightarrow> nat \<Rightarrow> buffer \<Rightarrow> nat \<Rightarrow> nat \<Rightarrow> nat \<Rightarrow> buffer option"
where
  "spec_per_pixel_copy le cmap srcbuf srcstride destbuf destwidth destheight deststride =
     for_loop [0..<destheight] (\<lambda>desty.
       for_loop [0..<destwidth] (\<lambda>destx d.
         copy_pixel le srcbuf (snd (cmap destx desty) * srcstride + fst (cmap destx desty) * 4)
           d (desty * deststride + destx * 4))) destbuf"

definition spec_map_identity :: "nat \<Rightarrow> nat \<Rightarrow> nat \<times> nat" where
  "spec_map_identity destx desty = (destx, desty)"

definition spec_map_flipped_180 :: "nat \<Rightarrow> nat \<Rightarrow> nat \<Rightarrow> nat \<times> nat" where
  "spec_map_flipped_180 destheight destx desty = (destx, destheight - desty - 1)"

section \<open>Channels\<close>

text \<open>
  Cairo RGB24 is one native 32-bit word for each pixel, as XRGB: red in bits 23 to 16,
  green in bits 15 to 8, blue in bits 7 to 0, and the unused byte in bits 31 to 24.
\<close>

definition unused_of :: "32 word \<Rightarrow> byte" where "unused_of w = ucast (drop_bit 24 w)"
definition red_of :: "32 word \<Rightarrow> byte" where "red_of w = ucast (drop_bit 16 w)"
definition green_of :: "32 word \<Rightarrow> byte" where "green_of w = ucast (drop_bit 8 w)"
definition blue_of :: "32 word \<Rightarrow> byte" where "blue_of w = ucast w"

text \<open>
  Modelled from the spec: the packed 10-bit wire formats, whose declarations are in the
  Wayland protocol header and not in the sources. A pixel is one little-endian 32-bit
  word of three 10-bit channels and two more bits, in the order of the format's name
  from the most significant bit down: 2:10:10:10 for XRGB2101010 and XBGR2101010,
  10:10:10:2 for RGBX1010102 and BGRX1010102.
\<close>

definition pack_2_10_10_10 :: "2 word \<Rightarrow> 10 word \<Rightarrow> 10 word \<Rightarrow> 10 word \<Rightarrow> 32 word" where
  "pack_2_10_10_10 x c2 c1 c0 =
     push_bit 30 (ucast x) OR push_bit 20 (ucast c2) OR push_bit 10 (ucast c1) OR ucast c0"

definition pack_10_10_10_2 :: "10 word \<Rightarrow> 10 word \<Rightarrow> 10 word \<Rightarrow> 2 word \<Rightarrow> 32 word" where
  "pack_10_10_10_2 c2 c1 c0 x =
     push_bit 22 (ucast c2) OR push_bit 12 (ucast c1) OR push_bit 2 (ucast c0) OR ucast x"

text \<open>
  The red, green and blue bytes of a pixel of a packed 8-bit format, from the four bytes of
  its cell as they lie in memory. The kernels' comments give the layouts: XRGB as a
  little-endian word is B, G, R, X in memory, and XBGR is R, G, B, X.
\<close>

fun packed8_channels :: "wl_shm_format \<Rightarrow> byte list \<Rightarrow> (byte \<times> byte \<times> byte) option" where
  "packed8_channels WL_SHM_FORMAT_XRGB8888 c = Some (c ! 2, c ! 1, c ! 0)"
| "packed8_channels WL_SHM_FORMAT_ARGB8888 c = Some (c ! 2, c ! 1, c ! 0)"
| "packed8_channels WL_SHM_FORMAT_XBGR8888 c = Some (c ! 0, c ! 1, c ! 2)"
| "packed8_channels WL_SHM_FORMAT_ABGR8888 c = Some (c ! 0, c ! 1, c ! 2)"
| "packed8_channels f c = None"

text \<open>A 10-bit channel without its two least-significant bits.\<close>

definition top8 :: "10 word \<Rightarrow> byte" where
  "top8 c = ucast (drop_bit 2 c)"

text \<open>The kernels of the source: seven \<^verbatim>\<open>cairo_rgb24_from_*\<close> functions and the swap.\<close>

definition kernels :: "(bool \<Rightarrow> buffer \<Rightarrow> nat \<Rightarrow> nat \<Rightarrow> nat \<Rightarrow> buffer option) list" where
  "kernels =
     [cairo_rgb24_from_xrgb32_le, cairo_rgb24_from_xbgr32_le,
      cairo_rgb24_from_xrgb2101010_le, cairo_rgb24_from_xbgr2101010_le,
      cairo_rgb24_from_rgbx1010102_le, cairo_rgb24_from_bgrx1010102_le,
      cairo_rgb24_from_bgr888_le, cairo_rgb24_swap_rb]"

text \<open>
  Whether the case of a format in the second switch calls a kernel: every case does but
  the last one (XRGB8888, ARGB8888 and the default), which does so only on a host that is
  not little-endian.
\<close>

fun runs_kernel :: "bool \<Rightarrow> wl_shm_format \<Rightarrow> bool" where
  "runs_kernel le WL_SHM_FORMAT_XRGB8888 = (\<not> le)"
| "runs_kernel le WL_SHM_FORMAT_ARGB8888 = (\<not> le)"
| "runs_kernel le (WL_SHM_FORMAT_other v) = (\<not> le)"
| "runs_kernel le f = True"

text \<open>The formats with an alpha channel, each with the format that has X in its place.\<close>

definition alpha_formats :: "(wl_shm_format \<times> wl_shm_format) list" where
  "alpha_formats =
     [(WL_SHM_FORMAT_ARGB8888, WL_SHM_FORMAT_XRGB8888),
      (WL_SHM_FORMAT_ABGR8888, WL_SHM_FORMAT_XBGR8888),
      (WL_SHM_FORMAT_ARGB2101010, WL_SHM_FORMAT_XRGB2101010),
      (WL_SHM_FORMAT_ABGR2101010, WL_SHM_FORMAT_XBGR2101010),
      (WL_SHM_FORMAT_RGBA1010102, WL_SHM_FORMAT_RGBX1010102),
      (WL_SHM_FORMAT_BGRA1010102, WL_SHM_FORMAT_BGRX1010102)]"

text \<open>The six keywords of \<^verbatim>\<open>parse_background_mode\<close>.\<close>

definition mode_keywords :: "string list" where
  "mode_keywords = [''stretch'', ''fill'', ''fit'', ''center'', ''tile'', ''solid_color'']"

text \<open>
  Every pixel of a \<open>w\<close> by \<open>h\<close> image can be loaded as a native word, and bits 31 to 24
  of that word are zero.
\<close>

definition unused_bytes_zero :: "bool \<Rightarrow> buffer \<Rightarrow> nat \<Rightarrow> nat \<Rightarrow> nat \<Rightarrow> bool" where
  "unused_bytes_zero le buf w h stride =
     list_all (\<lambda>y. list_all (\<lambda>x.
       map_option unused_of (load32 le buf (y * stride + x * 4)) = Some 0) [0..<w]) [0..<h]"

section \<open>Buffers that agree outside a range\<close>

text \<open>
  \<open>buf'\<close> has the length of \<open>buf\<close> and the same bytes everywhere but at the offsets
  from \<open>lo\<close> up to \<open>hi - 1\<close>.
\<close>

definition unchanged_outside :: "nat \<Rightarrow> nat \<Rightarrow> buffer \<Rightarrow> buffer \<Rightarrow> bool" where
  "unchanged_outside lo hi buf buf' \<longleftrightarrow>
     length buf' = length buf \<and> (\<forall>j<length buf. j < lo \<or> hi \<le> j \<longrightarrow> buf' ! j = buf ! j)"

section \<open>Memory lemmas\<close>


subsection \<open>Bytes and words\<close>

lemma byte_bit_high:
  "\<not> bit (a :: byte) (8 + n)" "\<not> bit (a :: byte) (16 + n)" "\<not> bit (a :: byte) (24 + n)"
  by (auto dest: bit_imp_le_length)

lemma byte0_word32_le: "ucast (word32_le a b c d) = a"
  unfolding word32_le_def
  by (rule bit_word_eqI) (auto simp add: bit_simps)

lemma byte1_word32_le: "ucast (drop_bit 8 (word32_le a b c d)) = b"
  unfolding word32_le_def
  by (rule bit_word_eqI) (auto simp add: bit_simps byte_bit_high)

lemma byte2_word32_le: "ucast (drop_bit 16 (word32_le a b c d)) = c"
  unfolding word32_le_def
  by (rule bit_word_eqI) (auto simp add: bit_simps byte_bit_high)

lemma byte3_word32_le: "ucast (drop_bit 24 (word32_le a b c d)) = d"
  unfolding word32_le_def
  by (rule bit_word_eqI) (auto simp add: bit_simps byte_bit_high)

lemmas bytes_word32_le = byte0_word32_le byte1_word32_le byte2_word32_le byte3_word32_le

lemma word32_le_bytes:
  "word32_le (ucast w) (ucast (drop_bit 8 w)) (ucast (drop_bit 16 w)) (ucast (drop_bit 24 w)) = w"
  unfolding word32_le_def
proof (rule bit_word_eqI)
  fix n assume "n < LENGTH(32)"
  then have "n < 8 \<or> (8 \<le> n \<and> n < 16) \<or> (16 \<le> n \<and> n < 24) \<or> (24 \<le> n \<and> n < 32)"
    by auto
  then show "bit (ucast (ucast w :: byte) OR push_bit 8 (ucast (ucast (drop_bit 8 w) :: byte)) OR
          push_bit 16 (ucast (ucast (drop_bit 16 w) :: byte)) OR
          push_bit 24 (ucast (ucast (drop_bit 24 w) :: byte)) :: 32 word) n = bit w n"
    by (auto simp add: bit_simps)
qed

lemma length_bytes_of_word32: "length (bytes_of_word32 le w) = 4"
  by (simp add: bytes_of_word32_def Let_def)

lemma list4: "length bs = 4 \<Longrightarrow> bs = [bs ! 0, bs ! 1, bs ! 2, bs ! 3]"
  by (auto simp add: list_eq_iff_nth_eq less_Suc_eq numeral_eq_Suc)

lemma bytes_of_word32_of_bytes:
  assumes "length bs = 4"
  shows "bytes_of_word32 le (word32_of_bytes le bs) = bs"
proof -
  have "bytes_of_word32 le (word32_of_bytes le bs) = [bs ! 0, bs ! 1, bs ! 2, bs ! 3]"
    by (simp add: bytes_of_word32_def word32_of_bytes_def Let_def bytes_word32_le)
  with list4 [OF assms] show ?thesis by simp
qed

lemma word32_of_bytes_of_word32: "word32_of_bytes le (bytes_of_word32 le w) = w"
  by (simp add: bytes_of_word32_def word32_of_bytes_def Let_def word32_le_bytes)

subsection \<open>Cells and patches\<close>

lemma length_cell: "i + 4 \<le> length buf \<Longrightarrow> length (cell buf i) = 4"
  by (simp add: cell_def)

lemma nth_cell: "i + 4 \<le> length buf \<Longrightarrow> k < 4 \<Longrightarrow> cell buf i ! k = buf ! (i + k)"
  by (simp add: cell_def)

lemma length_patch: "i + length bs \<le> length buf \<Longrightarrow> length (patch buf i bs) = length buf"
  by (simp add: patch_def)

lemma nth_patch:
  "i + length bs \<le> length buf \<Longrightarrow> j < length buf \<Longrightarrow>
   patch buf i bs ! j = (if i \<le> j \<and> j < i + length bs then bs ! (j - i) else buf ! j)"
  by (auto simp add: patch_def nth_append)

lemma cell_patch_same: "length bs = 4 \<Longrightarrow> i + 4 \<le> length buf \<Longrightarrow> cell (patch buf i bs) i = bs"
  by (simp add: cell_def patch_def)

lemma cell_patch_within:
  assumes "i + length bs \<le> length buf" "i \<le> j" "j + 4 \<le> i + length bs"
  shows "cell (patch buf i bs) j = take 4 (drop (j - i) bs)"
  using assms by (simp add: cell_def patch_def)

lemma unchanged_outside_refl: "unchanged_outside lo hi buf buf"
  by (simp add: unchanged_outside_def)

lemma unchanged_outside_length: "unchanged_outside lo hi buf buf' \<Longrightarrow> length buf' = length buf"
  by (simp add: unchanged_outside_def)

lemma unchanged_outside_nth:
  "unchanged_outside lo hi buf buf' \<Longrightarrow> j < lo \<or> hi \<le> j \<Longrightarrow> j < length buf \<Longrightarrow> buf' ! j = buf ! j"
  by (auto simp add: unchanged_outside_def)

lemma unchanged_outside_trans:
  "unchanged_outside lo hi a b \<Longrightarrow> unchanged_outside lo' hi' b c \<Longrightarrow>
   l \<le> lo \<Longrightarrow> l \<le> lo' \<Longrightarrow> hi \<le> h \<Longrightarrow> hi' \<le> h \<Longrightarrow> unchanged_outside l h a c"
  by (auto simp add: unchanged_outside_def)

lemma patch_unchanged:
  "i + length bs \<le> length buf \<Longrightarrow> unchanged_outside i (i + length bs) buf (patch buf i bs)"
  by (auto simp add: unchanged_outside_def length_patch nth_patch)

lemma cell_unchanged:
  assumes "unchanged_outside lo hi buf buf'" "i + 4 \<le> lo \<or> hi \<le> i"
  shows "cell buf' i = cell buf i"
proof (rule nth_equalityI)
  show "length (cell buf' i) = length (cell buf i)"
    using assms(1) by (simp add: cell_def unchanged_outside_def)
next
  fix k assume "k < length (cell buf' i)"
  then have k: "k < 4" "i + k < length buf"
    using assms(1) by (auto simp add: cell_def unchanged_outside_def)
  then have "buf' ! (i + k) = buf ! (i + k)"
    using assms by (auto simp add: unchanged_outside_def)
  with k assms(1) show "cell buf' i ! k = cell buf i ! k"
    by (simp add: cell_def unchanged_outside_def)
qed

subsection \<open>Loops\<close>

lemma for_loop_snoc:
  "for_loop (xs @ [i]) body s =
     (case for_loop xs body s of None \<Rightarrow> None | Some s' \<Rightarrow> body i s')"
  by (induction xs arbitrary: s) (auto split: option.splits)

lemma row_offset_le: "y < h \<Longrightarrow> y * stride + stride \<le> h * (stride :: nat)"
proof -
  assume "y < h"
  then have "Suc y * stride \<le> h * stride" by (intro mult_le_mono1) simp
  then show ?thesis by simp
qed

lemma cell_in_bounds:
  assumes "x < w" "y < h" "w * 4 \<le> stride" "h * stride \<le> (n :: nat)"
  shows "y * stride + x * 4 + 4 \<le> n"
  using row_offset_le [OF assms(2), of stride] assms by linarith


lemma pixel_row:
  assumes step: "\<And>x b. x < w \<Longrightarrow> length b = n \<Longrightarrow>
            rstep x b = Some (patch b (base + x * 4) (V x (cell b (base + x * 4))))"
    and len: "\<And>x c. x < w \<Longrightarrow> length (V x c) = 4"
    and bound: "base + w * 4 \<le> n" and n: "length buf = n" and k: "k \<le> w"
  shows "\<exists>buf'. for_loop [0..<k] rstep buf = Some buf' \<and>
           unchanged_outside base (base + k * 4) buf buf' \<and>
           (\<forall>x<k. cell buf' (base + x * 4) = V x (cell buf (base + x * 4)))"
  using k
proof (induction k)
  case 0
  show ?case by (simp add: unchanged_outside_refl)
next
  case (Suc k)
  then obtain b1 where run: "for_loop [0..<k] rstep buf = Some b1"
    and frame: "unchanged_outside base (base + k * 4) buf b1"
    and cells: "\<forall>x<k. cell b1 (base + x * 4) = V x (cell buf (base + x * 4))"
    by auto
  have n1: "length b1 = n"
    using frame n by (simp add: unchanged_outside_def)
  define b2 where "b2 = patch b1 (base + k * 4) (V k (cell b1 (base + k * 4)))"
  have kw: "k < w" using Suc.prems by simp
  have st: "rstep k b1 = Some b2"
    using step [OF kw n1] by (simp add: b2_def)
  have same: "cell b1 (base + k * 4) = cell buf (base + k * 4)"
    using cell_unchanged [OF frame] by simp
  have len4: "length (V k (cell b1 (base + k * 4))) = 4"
    using len [OF kw] .
  have inb: "base + k * 4 + 4 \<le> length b1"
    using kw bound n1 by simp
  have frame2: "unchanged_outside (base + k * 4) (base + k * 4 + 4) b1 b2"
    using patch_unchanged [of "base + k * 4" "V k (cell b1 (base + k * 4))" b1] len4 inb
    by (simp add: b2_def)
  have "for_loop [0..<Suc k] rstep buf = Some b2"
    by (simp add: for_loop_snoc run st)
  moreover have "unchanged_outside base (base + Suc k * 4) buf b2"
    by (rule unchanged_outside_trans [OF frame frame2]) simp_all
  moreover have "cell b2 (base + x * 4) = V x (cell buf (base + x * 4))" if "x < Suc k" for x
  proof (cases "x = k")
    case True
    then show ?thesis
      using cell_patch_same [OF len4 inb] same by (simp add: b2_def)
  next
    case False
    with that have "x < k" by simp
    then have "cell b2 (base + x * 4) = cell b1 (base + x * 4)"
      by (intro cell_unchanged [OF frame2]) simp
    with cells \<open>x < k\<close> show ?thesis by simp
  qed
  ultimately show ?case by blast
qed

lemma pixel_rows:
  assumes step: "\<And>y x b. y < h \<Longrightarrow> x < w \<Longrightarrow> length b = n \<Longrightarrow>
            pstep y x b =
              Some (patch b (y * stride + x * 4) (V y x (cell b (y * stride + x * 4))))"
    and len: "\<And>y x c. y < h \<Longrightarrow> x < w \<Longrightarrow> length (V y x c) = 4"
    and w: "w * 4 \<le> stride" and bound: "h * stride \<le> n" and n: "length buf = n"
    and k: "k \<le> h"
  shows "\<exists>buf'. for_loop [0..<k] (\<lambda>y. for_loop [0..<w] (pstep y)) buf = Some buf' \<and>
           unchanged_outside 0 (k * stride) buf buf' \<and>
           (\<forall>y<k. \<forall>x<w. cell buf' (y * stride + x * 4) = V y x (cell buf (y * stride + x * 4)))"
  using k
proof (induction k)
  case 0
  show ?case by (simp add: unchanged_outside_refl)
next
  case (Suc k)
  then obtain b1 where run: "for_loop [0..<k] (\<lambda>y. for_loop [0..<w] (pstep y)) buf = Some b1"
    and frame: "unchanged_outside 0 (k * stride) buf b1"
    and cells: "\<forall>y<k. \<forall>x<w. cell b1 (y * stride + x * 4) = V y x (cell buf (y * stride + x * 4))"
    by auto
  have n1: "length b1 = n"
    using frame n by (simp add: unchanged_outside_def)
  have kh: "k < h" using Suc.prems by simp
  have rowend: "k * stride + stride \<le> n"
    using row_offset_le [OF kh, of stride] bound by simp
  have "\<exists>b2. for_loop [0..<w] (pstep k) b1 = Some b2 \<and>
          unchanged_outside (k * stride) (k * stride + w * 4) b1 b2 \<and>
          (\<forall>x<w. cell b2 (k * stride + x * 4) = V k x (cell b1 (k * stride + x * 4)))"
  proof (rule pixel_row [where n = n and w = w])
    show "pstep k x b = Some (patch b (k * stride + x * 4) (V k x (cell b (k * stride + x * 4))))"
      if "x < w" "length b = n" for x b
      using step [OF kh that] .
    show "length (V k x c) = 4" if "x < w" for x c
      using len [OF kh that] .
    show "k * stride + w * 4 \<le> n" using rowend w by simp
  qed (simp_all add: n1)
  then obtain b2 where row: "for_loop [0..<w] (pstep k) b1 = Some b2"
    and frame2: "unchanged_outside (k * stride) (k * stride + w * 4) b1 b2"
    and cells2: "\<forall>x<w. cell b2 (k * stride + x * 4) = V k x (cell b1 (k * stride + x * 4))"
    by blast
  have "for_loop [0..<Suc k] (\<lambda>y. for_loop [0..<w] (pstep y)) buf = Some b2"
    by (simp add: for_loop_snoc run row)
  moreover have "unchanged_outside 0 (Suc k * stride) buf b2"
    by (rule unchanged_outside_trans [OF frame frame2]) (use w in simp_all)
  moreover have "cell b2 (y * stride + x * 4) = V y x (cell buf (y * stride + x * 4))"
    if "y < Suc k" "x < w" for y x
  proof (cases "y = k")
    case True
    have "cell b1 (k * stride + x * 4) = cell buf (k * stride + x * 4)"
      by (intro cell_unchanged [OF frame]) simp
    with cells2 that True show ?thesis by simp
  next
    case False
    with that have yk: "y < k" by simp
    have "y * stride + stride \<le> k * stride"
      by (rule row_offset_le [OF yk])
    with that w have "y * stride + x * 4 + 4 \<le> k * stride" by simp
    then have "cell b2 (y * stride + x * 4) = cell b1 (y * stride + x * 4)"
      by (intro cell_unchanged [OF frame2]) simp
    with cells yk that show ?thesis by simp
  qed
  ultimately show ?case by blast
qed


subsection \<open>Single steps\<close>

lemma store32_patch:
  "i + 4 \<le> length buf \<Longrightarrow> store32 le buf i w = Some (patch buf i (bytes_of_word32 le w))"
  by (simp add: store32_def)

lemma load32_cell:
  "i + 4 \<le> length buf \<Longrightarrow> load32 le buf i = Some (word32_of_bytes le (cell buf i))"
  by (simp add: load32_def)

lemma copy_pixel_patch:
  "s + 4 \<le> length src \<Longrightarrow> d + 4 \<le> length dest \<Longrightarrow>
   copy_pixel le src s dest d = Some (patch dest d (cell src s))"
  by (simp add: copy_pixel_def load32_cell store32_patch bytes_of_word32_of_bytes length_cell)

lemma xrgb32_le_step_patch:
  "i + 4 \<le> length buf \<Longrightarrow>
   xrgb32_le_step le buf i =
     Some (patch buf i (bytes_of_word32 le (rgb24_word (cell buf i ! 2) (cell buf i ! 1) (cell buf i ! 0))))"
  by (simp add: xrgb32_le_step_def load8_def store32_patch nth_cell)

lemma xbgr32_le_step_patch:
  "i + 4 \<le> length buf \<Longrightarrow>
   xbgr32_le_step le buf i =
     Some (patch buf i (bytes_of_word32 le (rgb24_word (cell buf i ! 0) (cell buf i ! 1) (cell buf i ! 2))))"
  by (simp add: xbgr32_le_step_def load8_def store32_patch nth_cell)

lemma le32toh_word32_of_bytes: "le32toh le (word32_of_bytes le bs) = word32_of_bytes True bs"
  by (simp add: le32toh_def word32_of_bytes_def bswap32_def bytes_word32_le)

lemma packed10_step_patch:
  "i + 4 \<le> length buf \<Longrightarrow>
   packed10_step conv le buf i =
     Some (patch buf i (bytes_of_word32 le (conv (word32_of_bytes True (cell buf i)))))"
  by (simp add: packed10_step_def load32_cell store32_patch le32toh_word32_of_bytes)

lemma bgr888_le_step_patch:
  "s + 3 \<le> length buf \<Longrightarrow> d + 4 \<le> length buf \<Longrightarrow>
   bgr888_le_step le buf s d =
     Some (patch buf d (bytes_of_word32 le (rgb24_word (buf ! s) (buf ! (s + 1)) (buf ! (s + 2)))))"
  by (simp add: bgr888_le_step_def load8_def store32_patch)

subsection \<open>Kernels that rewrite each 4-byte cell in place\<close>

lemma kernel_cells:
  assumes step: "\<And>b i. i + 4 \<le> length b \<Longrightarrow>
            kstep b i = Some (patch b i (bytes_of_word32 le (F (cell b i))))"
    and w: "w * 4 \<le> stride" and bound: "h * stride \<le> length buf"
  shows "\<exists>buf'. for_loop [0..<h] (\<lambda>y. for_loop [0..<w] (\<lambda>x b. kstep b (y * stride + x * 4))) buf
             = Some buf' \<and>
           length buf' = length buf \<and>
           (\<forall>y<h. \<forall>x<w. cell buf' (y * stride + x * 4)
                          = bytes_of_word32 le (F (cell buf (y * stride + x * 4))))"
proof -
  have "\<exists>buf'. for_loop [0..<h] (\<lambda>y. for_loop [0..<w] (\<lambda>x b. kstep b (y * stride + x * 4))) buf
             = Some buf' \<and>
           unchanged_outside 0 (h * stride) buf buf' \<and>
           (\<forall>y<h. \<forall>x<w. cell buf' (y * stride + x * 4)
                          = (\<lambda>y x c. bytes_of_word32 le (F c)) y x (cell buf (y * stride + x * 4)))"
  proof (rule pixel_rows [where n = "length buf" and h = h])
    show "kstep b (y * stride + x * 4) =
            Some (patch b (y * stride + x * 4) (bytes_of_word32 le (F (cell b (y * stride + x * 4)))))"
      if "y < h" "x < w" "length b = length buf" for y x b
      using cell_in_bounds [OF that(2) that(1) w bound] that(3) by (intro step) simp
  qed (simp_all add: length_bytes_of_word32 w bound)
  then show ?thesis
    by (auto simp add: unchanged_outside_def)
qed

subsection \<open>The widening kernel\<close>

lemma bgr888_row:
  assumes "base + w * 4 \<le> length buf"
  shows "\<exists>buf'. for_loop (rev [0..<w])
               (\<lambda>x b. bgr888_le_step le b (base + x * 3) (base + x * 4)) buf = Some buf' \<and>
           unchanged_outside base (base + w * 4) buf buf' \<and>
           (\<forall>x<w. cell buf' (base + x * 4)
                   = bytes_of_word32 le (rgb24_word (buf ! (base + x * 3))
                       (buf ! (base + x * 3 + 1)) (buf ! (base + x * 3 + 2))))"
  using assms
proof (induction w arbitrary: buf)
  case 0
  show ?case by (simp add: unchanged_outside_refl)
next
  case (Suc w)
  define bs where "bs = bytes_of_word32 le (rgb24_word (buf ! (base + w * 3))
                       (buf ! (base + w * 3 + 1)) (buf ! (base + w * 3 + 2)))"
  define b1 where "b1 = patch buf (base + w * 4) bs"
  have len4: "length bs = 4" by (simp add: bs_def length_bytes_of_word32)
  have inb: "base + w * 4 + 4 \<le> length buf" using Suc.prems by simp
  have st: "bgr888_le_step le buf (base + w * 3) (base + w * 4) = Some b1"
    using inb by (simp add: bgr888_le_step_patch b1_def bs_def)
  have frame1: "unchanged_outside (base + w * 4) (base + w * 4 + 4) buf b1"
    using patch_unchanged [of "base + w * 4" bs buf] len4 inb by (simp add: b1_def)
  have n1: "length b1 = length buf"
    using frame1 by (simp add: unchanged_outside_def)
  have "base + w * 4 \<le> length b1" using inb n1 by simp
  from Suc.IH [OF this] obtain b2
    where run: "for_loop (rev [0..<w])
               (\<lambda>x b. bgr888_le_step le b (base + x * 3) (base + x * 4)) b1 = Some b2"
      and frame2: "unchanged_outside base (base + w * 4) b1 b2"
      and cells: "\<forall>x<w. cell b2 (base + x * 4)
                   = bytes_of_word32 le (rgb24_word (b1 ! (base + x * 3))
                       (b1 ! (base + x * 3 + 1)) (b1 ! (base + x * 3 + 2)))"
    by blast
  have "for_loop (rev [0..<Suc w])
               (\<lambda>x b. bgr888_le_step le b (base + x * 3) (base + x * 4)) buf = Some b2"
    by (simp add: st run)
  moreover have "unchanged_outside base (base + Suc w * 4) buf b2"
    by (rule unchanged_outside_trans [OF frame1 frame2]) simp_all
  moreover have "cell b2 (base + x * 4)
                   = bytes_of_word32 le (rgb24_word (buf ! (base + x * 3))
                       (buf ! (base + x * 3 + 1)) (buf ! (base + x * 3 + 2)))"
    if "x < Suc w" for x
  proof (cases "x = w")
    case True
    have "cell b2 (base + w * 4) = cell b1 (base + w * 4)"
      by (intro cell_unchanged [OF frame2]) simp
    also have "\<dots> = bs"
      using cell_patch_same [OF len4 inb] by (simp add: b1_def)
    finally show ?thesis using True by (simp add: bs_def)
  next
    case False
    with that have xw: "x < w" by simp
    have "b1 ! (base + x * 3 + c) = buf ! (base + x * 3 + c)" if "c < 3" for c
      using that xw inb by (intro unchanged_outside_nth [OF frame1]) simp_all
    from this [of 0] this [of 1] this [of 2] cells xw show ?thesis by simp
  qed
  ultimately show ?case by blast
qed

lemma bgr888_rows:
  assumes w: "w * 4 \<le> stride" and bound: "h * stride \<le> length buf" and k: "k \<le> h"
  shows "\<exists>buf'. for_loop [0..<k] (\<lambda>y. for_loop (rev [0..<w])
               (\<lambda>x b. bgr888_le_step le b (y * stride + x * 3) (y * stride + x * 4))) buf
             = Some buf' \<and>
           unchanged_outside 0 (k * stride) buf buf' \<and>
           (\<forall>y<k. \<forall>x<w. cell buf' (y * stride + x * 4)
                   = bytes_of_word32 le (rgb24_word (buf ! (y * stride + x * 3))
                       (buf ! (y * stride + x * 3 + 1)) (buf ! (y * stride + x * 3 + 2))))"
  using k
proof (induction k)
  case 0
  show ?case by (simp add: unchanged_outside_refl)
next
  case (Suc k)
  let ?row = "\<lambda>y. for_loop (rev [0..<w])
               (\<lambda>x b. bgr888_le_step le b (y * stride + x * 3) (y * stride + x * 4))"
  from Suc obtain b1 where run: "for_loop [0..<k] ?row buf = Some b1"
    and frame: "unchanged_outside 0 (k * stride) buf b1"
    and cells: "\<forall>y<k. \<forall>x<w. cell b1 (y * stride + x * 4)
                   = bytes_of_word32 le (rgb24_word (buf ! (y * stride + x * 3))
                       (buf ! (y * stride + x * 3 + 1)) (buf ! (y * stride + x * 3 + 2)))"
    by auto
  have n1: "length b1 = length buf"
    using frame by (simp add: unchanged_outside_def)
  have kh: "k < h" using Suc.prems by simp
  have rowend: "k * stride + stride \<le> length buf"
    using row_offset_le [OF kh, of stride] bound by simp
  then have "k * stride + w * 4 \<le> length b1" using w n1 by simp
  from bgr888_row [OF this, of le] obtain b2 where row: "?row k b1 = Some b2"
    and frame2: "unchanged_outside (k * stride) (k * stride + w * 4) b1 b2"
    and cells2: "\<forall>x<w. cell b2 (k * stride + x * 4)
                   = bytes_of_word32 le (rgb24_word (b1 ! (k * stride + x * 3))
                       (b1 ! (k * stride + x * 3 + 1)) (b1 ! (k * stride + x * 3 + 2)))"
    by blast
  have "for_loop [0..<Suc k] ?row buf = Some b2"
    by (simp add: for_loop_snoc run row)
  moreover have "unchanged_outside 0 (Suc k * stride) buf b2"
    by (rule unchanged_outside_trans [OF frame frame2]) (use w in simp_all)
  moreover have "cell b2 (y * stride + x * 4)
                   = bytes_of_word32 le (rgb24_word (buf ! (y * stride + x * 3))
                       (buf ! (y * stride + x * 3 + 1)) (buf ! (y * stride + x * 3 + 2)))"
    if "y < Suc k" "x < w" for y x
  proof (cases "y = k")
    case True
    have "b1 ! (k * stride + x * 3 + c) = buf ! (k * stride + x * 3 + c)" if "c < 3" for c
      using that \<open>x < w\<close> w rowend by (intro unchanged_outside_nth [OF frame]) simp_all
    from this [of 0] this [of 1] this [of 2] cells2 that True show ?thesis by simp
  next
    case False
    with that have yk: "y < k" by simp
    have "y * stride + stride \<le> k * stride"
      by (rule row_offset_le [OF yk])
    with that w have "y * stride + x * 4 + 4 \<le> k * stride" by simp
    then have "cell b2 (y * stride + x * 4) = cell b1 (y * stride + x * 4)"
      by (intro cell_unchanged [OF frame2]) simp
    with cells yk that show ?thesis by simp
  qed
  ultimately show ?case by blast
qed


subsection \<open>Copy loops\<close>

lemma copy_loops:
  assumes src: "\<And>y x. y < h \<Longrightarrow> x < w \<Longrightarrow> soff y x + 4 \<le> length src"
    and w: "w * 4 \<le> dstride" and bound: "h * dstride \<le> length dest"
  shows "\<exists>d'. for_loop [0..<h] (\<lambda>y. for_loop [0..<w] (\<lambda>x d.
                 copy_pixel le src (soff y x) d (y * dstride + x * 4))) dest = Some d' \<and>
           length d' = length dest \<and>
           (\<forall>y<h. \<forall>x<w. cell d' (y * dstride + x * 4) = cell src (soff y x))"
proof -
  have "\<exists>d'. for_loop [0..<h] (\<lambda>y. for_loop [0..<w] (\<lambda>x d.
                 copy_pixel le src (soff y x) d (y * dstride + x * 4))) dest = Some d' \<and>
           unchanged_outside 0 (h * dstride) dest d' \<and>
           (\<forall>y<h. \<forall>x<w. cell d' (y * dstride + x * 4)
               = (\<lambda>y x c. cell src (soff y x)) y x (cell dest (y * dstride + x * 4)))"
  proof (rule pixel_rows [where n = "length dest" and h = h])
    show "copy_pixel le src (soff y x) b (y * dstride + x * 4) =
            Some (patch b (y * dstride + x * 4) (cell src (soff y x)))"
      if "y < h" "x < w" "length b = length dest" for y x b
      using cell_in_bounds [OF that(2) that(1) w bound] that(3) src [OF that(1) that(2)]
      by (intro copy_pixel_patch) simp_all
    show "length (cell src (soff y x)) = 4" if "y < h" "x < w" for y x c
      using src [OF that] by (rule length_cell)
  qed (simp_all add: w bound)
  then show ?thesis
    by (auto simp add: unchanged_outside_def)
qed

lemma cell_memcpy:
  assumes "s + m \<le> length src" "d + m \<le> length dest" "off + 4 \<le> m"
  shows "cell (patch dest d (take m (drop s src))) (d + off) = cell src (s + off)"
proof -
  have "cell (patch dest d (take m (drop s src))) (d + off)
          = take 4 (drop (d + off - d) (take m (drop s src)))"
    using assms by (intro cell_patch_within) simp_all
  also have "\<dots> = cell src (s + off)"
    using assms by (simp add: cell_def drop_take add.commute min_def)
  finally show ?thesis .
qed

lemma memcpy_rows:
  assumes src: "\<And>y. y < h \<Longrightarrow> srow y + m \<le> length src"
    and m: "m \<le> dstride" and bound: "h * dstride \<le> length dest" and k: "k \<le> h"
  shows "\<exists>d'. for_loop [0..<k] (\<lambda>y d. memcpy d (y * dstride) src (srow y) m) dest = Some d' \<and>
           unchanged_outside 0 (k * dstride) dest d' \<and>
           (\<forall>y<k. \<forall>off. off + 4 \<le> m \<longrightarrow> cell d' (y * dstride + off) = cell src (srow y + off))"
  using k
proof (induction k)
  case 0
  show ?case by (simp add: unchanged_outside_refl)
next
  case (Suc k)
  let ?body = "\<lambda>y d. memcpy d (y * dstride) src (srow y) m"
  from Suc obtain d1 where run: "for_loop [0..<k] ?body dest = Some d1"
    and frame: "unchanged_outside 0 (k * dstride) dest d1"
    and cells: "\<forall>y<k. \<forall>off. off + 4 \<le> m \<longrightarrow> cell d1 (y * dstride + off) = cell src (srow y + off)"
    by auto
  have n1: "length d1 = length dest"
    using frame by (simp add: unchanged_outside_def)
  have kh: "k < h" using Suc.prems by simp
  have rowend: "k * dstride + dstride \<le> length dest"
    using row_offset_le [OF kh, of dstride] bound by simp
  define bs where "bs = take m (drop (srow k) src)"
  define d2 where "d2 = patch d1 (k * dstride) bs"
  have lbs: "length bs = m" using src [OF kh] by (simp add: bs_def)
  have inb: "k * dstride + m \<le> length d1" using rowend m n1 by simp
  have st: "?body k d1 = Some d2"
    using inb src [OF kh] by (simp add: memcpy_def d2_def bs_def)
  have frame2: "unchanged_outside (k * dstride) (k * dstride + m) d1 d2"
    using patch_unchanged [of "k * dstride" bs d1] lbs inb by (simp add: d2_def)
  have "for_loop [0..<Suc k] ?body dest = Some d2"
    by (simp add: for_loop_snoc run st)
  moreover have "unchanged_outside 0 (Suc k * dstride) dest d2"
    by (rule unchanged_outside_trans [OF frame frame2]) (use m in simp_all)
  moreover have "cell d2 (y * dstride + off) = cell src (srow y + off)"
    if "y < Suc k" "off + 4 \<le> m" for y off
  proof (cases "y = k")
    case True
    show ?thesis
      using cell_memcpy [OF src [OF kh] inb that(2)] True by (simp add: d2_def bs_def)
  next
    case False
    with that have yk: "y < k" by simp
    have "y * dstride + dstride \<le> k * dstride"
      by (rule row_offset_le [OF yk])
    with that m have "y * dstride + off + 4 \<le> k * dstride" by simp
    then have "cell d2 (y * dstride + off) = cell d1 (y * dstride + off)"
      by (intro cell_unchanged [OF frame2]) simp
    with cells yk that show ?thesis by simp
  qed
  ultimately show ?case by blast
qed


lemma copy_loops_coords:
  assumes coords: "\<And>y x. y < h \<Longrightarrow> x < w \<Longrightarrow> sx y x < sw \<and> sy y x < sh"
    and sw: "sw * 4 \<le> sstride" and sbound: "sh * sstride \<le> length src"
    and w: "w * 4 \<le> dstride" and bound: "h * dstride \<le> length dest"
  shows "\<exists>d'. for_loop [0..<h] (\<lambda>y. for_loop [0..<w] (\<lambda>x d.
                 copy_pixel le src (sy y x * sstride + sx y x * 4) d (y * dstride + x * 4))) dest
             = Some d' \<and>
           length d' = length dest \<and>
           (\<forall>y<h. \<forall>x<w. cell d' (y * dstride + x * 4) = cell src (sy y x * sstride + sx y x * 4))"
proof (rule copy_loops [OF _ w bound])
  show "sy y x * sstride + sx y x * 4 + 4 \<le> length src" if "y < h" "x < w" for y x
    using coords [OF that] cell_in_bounds [OF _ _ sw sbound] by blast
qed

lemma transform_switch_cells:
  assumes dw: "destwidth = (if rotated t then srcheight else srcwidth)"
    and dh: "destheight = (if rotated t then srcwidth else srcheight)"
    and sw: "srcwidth * 4 \<le> srcstride" and sbound: "srcheight * srcstride \<le> length srcbuf"
    and w: "destwidth * 4 \<le> deststride" and bound: "destheight * deststride \<le> length destbuf"
  shows "\<exists>d'. transform_switch le t srcbuf srcstride destbuf destwidth destheight deststride = Some d' \<and>
           length d' = length destbuf \<and>
           (\<forall>desty<destheight. \<forall>destx<destwidth.
              cell d' (desty * deststride + destx * 4) =
              cell srcbuf (snd (source_pixel t destwidth destheight destx desty) * srcstride
                           + fst (source_pixel t destwidth destheight destx desty) * 4))"
proof (cases t)
  case WL_OUTPUT_TRANSFORM_NORMAL
  then have dims: "destwidth = srcwidth" "destheight = srcheight"
    using dw dh by (simp_all add: rotated_def)
  show ?thesis
  proof (cases "srcstride = deststride")
    case True
    define d' where "d' = patch destbuf 0 (take (destheight * deststride) (drop 0 srcbuf))"
    have run: "transform_switch le t srcbuf srcstride destbuf destwidth destheight deststride = Some d'"
      using True sbound bound dims WL_OUTPUT_TRANSFORM_NORMAL by (simp add: memcpy_def d'_def)
    have "length d' = length destbuf"
      using sbound bound dims True by (simp add: d'_def length_patch)
    moreover have "cell d' (y * deststride + x * 4) = cell srcbuf (y * srcstride + x * 4)"
      if "y < destheight" "x < destwidth" for y x
    proof -
      have "y * deststride + x * 4 + 4 \<le> destheight * deststride"
        using cell_in_bounds [OF that(2) that(1) w] by simp
      then have "cell d' (0 + (y * deststride + x * 4)) = cell srcbuf (0 + (y * deststride + x * 4))"
        unfolding d'_def using sbound bound dims True by (intro cell_memcpy) simp_all
      then show ?thesis using True by simp
    qed
    ultimately show ?thesis
      using run WL_OUTPUT_TRANSFORM_NORMAL by simp
  next
    case False
    define m where "m = (if srcstride < deststride then srcstride else deststride)"
    have m: "m \<le> deststride" "m \<le> srcstride" "destwidth * 4 \<le> m"
      using sw w dims by (simp_all add: m_def)
    have "\<exists>d'. for_loop [0..<destheight]
                  (\<lambda>y d. memcpy d (y * deststride) srcbuf (y * srcstride) m) destbuf = Some d' \<and>
            unchanged_outside 0 (destheight * deststride) destbuf d' \<and>
            (\<forall>y<destheight. \<forall>off. off + 4 \<le> m \<longrightarrow>
               cell d' (y * deststride + off) = cell srcbuf (y * srcstride + off))"
    proof (rule memcpy_rows [OF _ m(1) bound])
      show "y * srcstride + m \<le> length srcbuf" if "y < destheight" for y
        using row_offset_le [of y srcheight srcstride] that dims m(2) sbound by simp
    qed simp
    then obtain d' where run: "for_loop [0..<destheight]
                  (\<lambda>y d. memcpy d (y * deststride) srcbuf (y * srcstride) m) destbuf = Some d'"
      and frame: "unchanged_outside 0 (destheight * deststride) destbuf d'"
      and cells: "\<forall>y<destheight. \<forall>off. off + 4 \<le> m \<longrightarrow>
               cell d' (y * deststride + off) = cell srcbuf (y * srcstride + off)"
      by blast
    have "cell d' (y * deststride + x * 4) = cell srcbuf (y * srcstride + x * 4)"
      if "y < destheight" "x < destwidth" for y x
      using cells that m(3) by simp
    moreover have "length d' = length destbuf"
      using frame by (simp add: unchanged_outside_def)
    ultimately show ?thesis
      using run False WL_OUTPUT_TRANSFORM_NORMAL by (simp add: m_def)
  qed
next
  case WL_OUTPUT_TRANSFORM_90
  then have dims: "destwidth = srcheight" "destheight = srcwidth"
    using dw dh by (simp_all add: rotated_def)
  show ?thesis
    using copy_loops_coords [where sx = "\<lambda>y x. y" and sy = "\<lambda>y x. destwidth - x - 1"
        and h = destheight and le = le, OF _ sw sbound w bound]
    by (simp add: WL_OUTPUT_TRANSFORM_90 dims)
next
  case WL_OUTPUT_TRANSFORM_180
  then have dims: "destwidth = srcwidth" "destheight = srcheight"
    using dw dh by (simp_all add: rotated_def)
  show ?thesis
    using copy_loops_coords [where sx = "\<lambda>y x. destwidth - x - 1" and sy = "\<lambda>y x. destheight - y - 1"
        and h = destheight and le = le, OF _ sw sbound w bound]
    by (simp add: WL_OUTPUT_TRANSFORM_180 dims)
next
  case WL_OUTPUT_TRANSFORM_270
  then have dims: "destwidth = srcheight" "destheight = srcwidth"
    using dw dh by (simp_all add: rotated_def)
  show ?thesis
    using copy_loops_coords [where sx = "\<lambda>y x. destheight - y - 1" and sy = "\<lambda>y x. x"
        and h = destheight and le = le, OF _ sw sbound w bound]
    by (simp add: WL_OUTPUT_TRANSFORM_270 dims)
next
  case WL_OUTPUT_TRANSFORM_FLIPPED
  then have dims: "destwidth = srcwidth" "destheight = srcheight"
    using dw dh by (simp_all add: rotated_def)
  show ?thesis
    using copy_loops_coords [where sx = "\<lambda>y x. destwidth - x - 1" and sy = "\<lambda>y x. y"
        and h = destheight and le = le, OF _ sw sbound w bound]
    by (simp add: WL_OUTPUT_TRANSFORM_FLIPPED dims)
next
  case WL_OUTPUT_TRANSFORM_FLIPPED_90
  then have dims: "destwidth = srcheight" "destheight = srcwidth"
    using dw dh by (simp_all add: rotated_def)
  show ?thesis
    using copy_loops_coords [where sx = "\<lambda>y x. y" and sy = "\<lambda>y x. x"
        and h = destheight and le = le, OF _ sw sbound w bound]
    by (simp add: WL_OUTPUT_TRANSFORM_FLIPPED_90 dims)
next
  case WL_OUTPUT_TRANSFORM_FLIPPED_180
  then have dims: "destwidth = srcwidth" "destheight = srcheight"
    using dw dh by (simp_all add: rotated_def)
  define m where "m = (if srcstride < deststride then srcstride else deststride)"
  have m: "m \<le> deststride" "m \<le> srcstride" "destwidth * 4 \<le> m"
    using sw w dims by (simp_all add: m_def)
  have "\<exists>d'. for_loop [0..<destheight]
                (\<lambda>y d. memcpy d (y * deststride) srcbuf ((destheight - y - 1) * srcstride) m) destbuf
              = Some d' \<and>
          unchanged_outside 0 (destheight * deststride) destbuf d' \<and>
          (\<forall>y<destheight. \<forall>off. off + 4 \<le> m \<longrightarrow>
             cell d' (y * deststride + off) = cell srcbuf ((destheight - y - 1) * srcstride + off))"
  proof (rule memcpy_rows [OF _ m(1) bound])
    show "(destheight - y - 1) * srcstride + m \<le> length srcbuf" if "y < destheight" for y
      using row_offset_le [of "destheight - y - 1" srcheight srcstride] that dims m(2) sbound by simp
  qed simp
  then obtain d' where run: "for_loop [0..<destheight]
                (\<lambda>y d. memcpy d (y * deststride) srcbuf ((destheight - y - 1) * srcstride) m) destbuf
              = Some d'"
    and frame: "unchanged_outside 0 (destheight * deststride) destbuf d'"
    and cells: "\<forall>y<destheight. \<forall>off. off + 4 \<le> m \<longrightarrow>
             cell d' (y * deststride + off) = cell srcbuf ((destheight - y - 1) * srcstride + off)"
    by blast
  have "cell d' (y * deststride + x * 4) = cell srcbuf ((destheight - y - 1) * srcstride + x * 4)"
    if "y < destheight" "x < destwidth" for y x
    using cells that m(3) by simp
  moreover have "length d' = length destbuf"
    using frame by (simp add: unchanged_outside_def)
  ultimately show ?thesis
    using run WL_OUTPUT_TRANSFORM_FLIPPED_180 by (simp add: m_def Let_def)
next
  case WL_OUTPUT_TRANSFORM_FLIPPED_270
  then have dims: "destwidth = srcheight" "destheight = srcwidth"
    using dw dh by (simp_all add: rotated_def)
  show ?thesis
    using copy_loops_coords [where sx = "\<lambda>y x. destheight - y - 1" and sy = "\<lambda>y x. destwidth - x - 1"
        and h = destheight and le = le, OF _ sw sbound w bound]
    by (simp add: WL_OUTPUT_TRANSFORM_FLIPPED_270 dims)
qed

section \<open>Background modes: proofs\<close>

lemma strcmp_zero_iff: "strcmp a b = 0 \<longleftrightarrow> a = b"
  by (induction a b rule: strcmp.induct) auto

text \<open>
  C9. \<^verbatim>\<open>parse_background_mode\<close> matches its argument exactly against the six keywords
  and returns the mode of the keyword, logging nothing; on every other string it returns
  \<open>BACKGROUND_MODE_INVALID\<close> and logs one error line. It is a total function: there is
  no input on which it fails to return.
\<close>

theorem parse_background_mode_exact:
  "parse_background_mode ''stretch'' log = (BACKGROUND_MODE_STRETCH, log) \<and>
   parse_background_mode ''fill'' log = (BACKGROUND_MODE_FILL, log) \<and>
   parse_background_mode ''fit'' log = (BACKGROUND_MODE_FIT, log) \<and>
   parse_background_mode ''center'' log = (BACKGROUND_MODE_CENTER, log) \<and>
   parse_background_mode ''tile'' log = (BACKGROUND_MODE_TILE, log) \<and>
   parse_background_mode ''solid_color'' log = (BACKGROUND_MODE_SOLID_COLOR, log) \<and>
   (mode \<notin> set mode_keywords \<longrightarrow>
      parse_background_mode mode log =
        (BACKGROUND_MODE_INVALID,
         log @ [(LOG_ERROR, ''Unsupported background mode: %s'', [Arg_string mode])]))"
  by (simp add: parse_background_mode_def strcmp_zero_iff mode_keywords_def)

theorem parse_background_mode_exact_witness:
  "''bogus'' \<notin> set mode_keywords \<and>
   parse_background_mode ''bogus'' [] =
     (BACKGROUND_MODE_INVALID,
      [(LOG_ERROR, ''Unsupported background mode: %s'', [Arg_string ''bogus''])]) \<and>
   parse_background_mode ''tile'' [] = (BACKGROUND_MODE_TILE, [])"
  using parse_background_mode_exact [of "[]" "''bogus''"]
  by (simp add: mode_keywords_def)

section \<open>Transforms: the claims\<close>

text \<open>
  C1, as the code has it. For the 90 degree transform the destination cell at
  \<open>(destx, desty)\<close> is the source cell at \<open>srcx = desty\<close>,
  \<open>srcy = destwidth - destx - 1\<close>, for every destination pixel; the copy succeeds
  when both buffers hold their rows. The source is \<open>destheight\<close> pixels wide and
  \<open>destwidth\<close> pixels high.
\<close>

theorem transform_90_cells:
  assumes "destwidth * 4 \<le> deststride" and "destheight * deststride \<le> length destbuf"
    and "destheight * 4 \<le> srcstride" and "destwidth * srcstride \<le> length srcbuf"
  shows "\<exists>d'. transform_switch le WL_OUTPUT_TRANSFORM_90 srcbuf srcstride
                 destbuf destwidth destheight deststride = Some d' \<and>
           (\<forall>desty<destheight. \<forall>destx<destwidth.
              cell d' (desty * deststride + destx * 4) =
              cell srcbuf ((destwidth - destx - 1) * srcstride + desty * 4))"
  using transform_switch_cells [where t = WL_OUTPUT_TRANSFORM_90 and srcwidth = destheight
      and srcheight = destwidth and le = le, OF _ _ assms(3) assms(4) assms(1) assms(2)]
  by (auto simp add: rotated_def)

theorem transform_90_cells_witness:
  "\<exists>d'. transform_switch True WL_OUTPUT_TRANSFORM_90
           [1, 0, 0, 0, 2, 0, 0, 0, 3, 0, 0, 0, 4, 0, 0, 0] 8 (replicate 16 0) 2 2 8 = Some d' \<and>
         cell d' (0 * 8 + 0 * 4) =
           cell [1, 0, 0, 0, 2, 0, 0, 0, 3, 0, 0, 0, 4, 0, 0, 0] ((2 - 0 - 1) * 8 + 0 * 4)"
proof -
  let ?src = "[1, 0, 0, 0, 2, 0, 0, 0, 3, 0, 0, 0, 4, 0, 0, 0] :: buffer"
  have "\<exists>d'. transform_switch True WL_OUTPUT_TRANSFORM_90 ?src 8 (replicate 16 0) 2 2 8 = Some d' \<and>
           (\<forall>desty<2. \<forall>destx<2.
              cell d' (desty * 8 + destx * 4) = cell ?src ((2 - destx - 1) * 8 + desty * 4))"
    by (rule transform_90_cells) simp_all
  then obtain d' where
    run: "transform_switch True WL_OUTPUT_TRANSFORM_90 ?src 8 (replicate 16 0) 2 2 8 = Some d'"
    and cells: "\<forall>desty<2. \<forall>destx<2.
              cell d' (desty * 8 + destx * 4) = cell ?src ((2 - destx - 1) * 8 + desty * 4)"
    by blast
  from cells [rule_format, of 0 0]
  have "cell d' (0 * 8 + 0 * 4) = cell ?src ((2 - 0 - 1) * 8 + 0 * 4)"
    by simp
  with run show ?thesis by blast
qed

text \<open>
  C1, as the claim states it, fails. On a 2 by 2 source with the cells 1, 2 in its first
  row and 3, 4 in its second, the destination pixel \<open>(0, 0)\<close> is the cell 3, the source
  pixel \<open>(0, 1)\<close>. The claim's \<open>srcx = destheight - desty - 1 = 1\<close>,
  \<open>srcy = destwidth - destx - 1 = 1\<close> names the cell 4.
\<close>

theorem transform_90_counterexample:
  "transform_switch True WL_OUTPUT_TRANSFORM_90
     [1, 0, 0, 0, 2, 0, 0, 0, 3, 0, 0, 0, 4, 0, 0, 0] 8 (replicate 16 0) 2 2 8
     = Some [3, 0, 0, 0, 1, 0, 0, 0, 4, 0, 0, 0, 2, 0, 0, 0] \<and>
   cell [3, 0, 0, 0, 1, 0, 0, 0, 4, 0, 0, 0, 2, 0, 0, 0] (0 * 8 + 0 * 4) = [3, 0, 0, 0] \<and>
   cell [1, 0, 0, 0, 2, 0, 0, 0, 3, 0, 0, 0, 4, 0, 0, 0] ((2 - 0 - 1) * 8 + (2 - 0 - 1) * 4)
     = [4, 0, 0, 0]"
  by (simp add: copy_pixel_def load32_def store32_def cell_def patch_def
      bytes_of_word32_of_bytes upt_rec numeral_eq_Suc)

text \<open>
  C3, as the code has it. For the 270 degree transform the destination cell at
  \<open>(destx, desty)\<close> is the source cell at \<open>srcx = destheight - desty - 1\<close>,
  \<open>srcy = destx\<close>, for every destination pixel.
\<close>

theorem transform_270_cells:
  assumes "destwidth * 4 \<le> deststride" and "destheight * deststride \<le> length destbuf"
    and "destheight * 4 \<le> srcstride" and "destwidth * srcstride \<le> length srcbuf"
  shows "\<exists>d'. transform_switch le WL_OUTPUT_TRANSFORM_270 srcbuf srcstride
                 destbuf destwidth destheight deststride = Some d' \<and>
           (\<forall>desty<destheight. \<forall>destx<destwidth.
              cell d' (desty * deststride + destx * 4) =
              cell srcbuf (destx * srcstride + (destheight - desty - 1) * 4))"
  using transform_switch_cells [where t = WL_OUTPUT_TRANSFORM_270 and srcwidth = destheight
      and srcheight = destwidth and le = le, OF _ _ assms(3) assms(4) assms(1) assms(2)]
  by (auto simp add: rotated_def)

theorem transform_270_cells_witness:
  "\<exists>d'. transform_switch True WL_OUTPUT_TRANSFORM_270
           [1, 0, 0, 0, 2, 0, 0, 0, 3, 0, 0, 0, 4, 0, 0, 0] 8 (replicate 16 0) 2 2 8 = Some d' \<and>
         cell d' (0 * 8 + 0 * 4) =
           cell [1, 0, 0, 0, 2, 0, 0, 0, 3, 0, 0, 0, 4, 0, 0, 0] (0 * 8 + (2 - 0 - 1) * 4)"
proof -
  let ?src = "[1, 0, 0, 0, 2, 0, 0, 0, 3, 0, 0, 0, 4, 0, 0, 0] :: buffer"
  have "\<exists>d'. transform_switch True WL_OUTPUT_TRANSFORM_270 ?src 8 (replicate 16 0) 2 2 8 = Some d' \<and>
           (\<forall>desty<2. \<forall>destx<2.
              cell d' (desty * 8 + destx * 4) = cell ?src (destx * 8 + (2 - desty - 1) * 4))"
    by (rule transform_270_cells) simp_all
  then obtain d' where
    run: "transform_switch True WL_OUTPUT_TRANSFORM_270 ?src 8 (replicate 16 0) 2 2 8 = Some d'"
    and cells: "\<forall>desty<2. \<forall>destx<2.
              cell d' (desty * 8 + destx * 4) = cell ?src (destx * 8 + (2 - desty - 1) * 4)"
    by blast
  from cells [rule_format, of 0 0]
  have "cell d' (0 * 8 + 0 * 4) = cell ?src (0 * 8 + (2 - 0 - 1) * 4)"
    by simp
  with run show ?thesis by blast
qed

text \<open>
  C3, as the claim states it, fails. On the same 2 by 2 source the destination pixel
  \<open>(0, 0)\<close> is the cell 2, the source pixel \<open>(1, 0)\<close>. The claim's \<open>srcx = desty = 0\<close>,
  \<open>srcy = destx = 0\<close> names the cell 1.
\<close>

theorem transform_270_counterexample:
  "transform_switch True WL_OUTPUT_TRANSFORM_270
     [1, 0, 0, 0, 2, 0, 0, 0, 3, 0, 0, 0, 4, 0, 0, 0] 8 (replicate 16 0) 2 2 8
     = Some [2, 0, 0, 0, 4, 0, 0, 0, 1, 0, 0, 0, 3, 0, 0, 0] \<and>
   cell [2, 0, 0, 0, 4, 0, 0, 0, 1, 0, 0, 0, 3, 0, 0, 0] (0 * 8 + 0 * 4) = [2, 0, 0, 0] \<and>
   cell [1, 0, 0, 0, 2, 0, 0, 0, 3, 0, 0, 0, 4, 0, 0, 0] (0 * 8 + 0 * 4) = [1, 0, 0, 0]"
  by (simp add: copy_pixel_def load32_def store32_def cell_def patch_def
      bytes_of_word32_of_bytes upt_rec numeral_eq_Suc)

lemma rotated_inverse_transform: "rotated (inverse_transform t) = rotated t"
  by (cases t) (simp_all add: rotated_def)

lemma source_pixel_round_trip:
  assumes "x < W" "y < H" "w1 = (if rotated t then H else W)" "h1 = (if rotated t then W else H)"
  shows "fst (source_pixel (inverse_transform t) W H x y) < w1 \<and>
         snd (source_pixel (inverse_transform t) W H x y) < h1 \<and>
         source_pixel t w1 h1 (fst (source_pixel (inverse_transform t) W H x y))
           (snd (source_pixel (inverse_transform t) W H x y)) = (x, y)"
  using assms by (cases t) (auto simp add: rotated_def)

lemma switch_round_trip:
  assumes src: "W * 4 \<le> srcstride" "H * srcstride \<le> length srcbuf"
    and w1: "w1 = (if rotated t then H else W)" and h1: "h1 = (if rotated t then W else H)"
    and mid: "w1 * 4 \<le> stride1" "h1 * stride1 \<le> length buf1"
    and fin: "W * 4 \<le> stride2" "H * stride2 \<le> length buf2"
  shows "\<exists>m f. transform_switch le t srcbuf srcstride buf1 w1 h1 stride1 = Some m \<and>
           transform_switch le (inverse_transform t) m stride1 buf2
             (if rotated (inverse_transform t) then h1 else w1)
             (if rotated (inverse_transform t) then w1 else h1) stride2 = Some f \<and>
           (if rotated (inverse_transform t) then h1 else w1) = W \<and>
           (if rotated (inverse_transform t) then w1 else h1) = H \<and>
           (\<forall>y<H. \<forall>x<W. cell f (y * stride2 + x * 4) = cell srcbuf (y * srcstride + x * 4))"
proof -
  from transform_switch_cells [OF w1 h1 src mid, of le] obtain m
    where run1: "transform_switch le t srcbuf srcstride buf1 w1 h1 stride1 = Some m"
      and len1: "length m = length buf1"
      and cells1: "\<forall>desty<h1. \<forall>destx<w1. cell m (desty * stride1 + destx * 4) =
              cell srcbuf (snd (source_pixel t w1 h1 destx desty) * srcstride
                           + fst (source_pixel t w1 h1 destx desty) * 4)"
    by blast
  have W: "W = (if rotated (inverse_transform t) then h1 else w1)"
    and H: "H = (if rotated (inverse_transform t) then w1 else h1)"
    using w1 h1 by (simp_all add: rotated_inverse_transform)
  have mid': "h1 * stride1 \<le> length m" using mid(2) len1 by simp
  from transform_switch_cells [OF W H mid(1) mid' fin, of le] obtain f
    where run2: "transform_switch le (inverse_transform t) m stride1 buf2 W H stride2 = Some f"
      and cells2: "\<forall>desty<H. \<forall>destx<W. cell f (desty * stride2 + destx * 4) =
              cell m (snd (source_pixel (inverse_transform t) W H destx desty) * stride1
                           + fst (source_pixel (inverse_transform t) W H destx desty) * 4)"
    by blast
  have "cell f (y * stride2 + x * 4) = cell srcbuf (y * srcstride + x * 4)"
    if "y < H" "x < W" for y x
  proof -
    define mx where "mx = fst (source_pixel (inverse_transform t) W H x y)"
    define my where "my = snd (source_pixel (inverse_transform t) W H x y)"
    from source_pixel_round_trip [OF that(2) that(1) w1 h1]
    have rt: "mx < w1" "my < h1" "source_pixel t w1 h1 mx my = (x, y)"
      by (simp_all add: mx_def my_def)
    have "cell f (y * stride2 + x * 4) = cell m (my * stride1 + mx * 4)"
      using cells2 that by (simp add: mx_def my_def)
    also have "\<dots> = cell srcbuf (y * srcstride + x * 4)"
      using cells1 [rule_format, OF rt(2) rt(1)] rt(3) by simp
    finally show ?thesis .
  qed
  with run1 run2 W H show ?thesis by auto
qed

lemma spec_per_pixel_copy_cells:
  assumes coords: "\<And>y x. y < h \<Longrightarrow> x < w \<Longrightarrow> fst (cmap x y) < sw \<and> snd (cmap x y) < sh"
    and sw: "sw * 4 \<le> sstride" and sbound: "sh * sstride \<le> length src"
    and w: "w * 4 \<le> dstride" and bound: "h * dstride \<le> length dest"
  shows "\<exists>d'. spec_per_pixel_copy le cmap src sstride dest w h dstride = Some d' \<and>
           (\<forall>y<h. \<forall>x<w. cell d' (y * dstride + x * 4)
               = cell src (snd (cmap x y) * sstride + fst (cmap x y) * 4))"
  using copy_loops_coords [where sx = "\<lambda>y x. fst (cmap x y)" and sy = "\<lambda>y x. snd (cmap x y)"
      and h = h and le = le, OF coords sw sbound w bound]
  by (auto simp add: spec_per_pixel_copy_def)

text \<open>
  C8. For the identity and for flip+180, whatever the two strides are (each at least four
  times the width), the rows copied by \<^verbatim>\<open>memcpy\<close> and the spec's per-pixel coordinate
  map give the same bytes in every destination pixel cell.
\<close>

theorem row_copy_refines_pixel_map:
  assumes src: "w * 4 \<le> srcstride" "h * srcstride \<le> length srcbuf"
    and dest: "w * 4 \<le> deststride" "h * deststride \<le> length destbuf"
  shows "\<exists>fast slow fast' slow'.
           transform_switch le WL_OUTPUT_TRANSFORM_NORMAL srcbuf srcstride destbuf w h deststride
             = Some fast \<and>
           spec_per_pixel_copy le spec_map_identity srcbuf srcstride destbuf w h deststride
             = Some slow \<and>
           (\<forall>y<h. \<forall>x<w. cell fast (y * deststride + x * 4) = cell slow (y * deststride + x * 4)) \<and>
           transform_switch le WL_OUTPUT_TRANSFORM_FLIPPED_180 srcbuf srcstride destbuf w h deststride
             = Some fast' \<and>
           spec_per_pixel_copy le (spec_map_flipped_180 h) srcbuf srcstride destbuf w h deststride
             = Some slow' \<and>
           (\<forall>y<h. \<forall>x<w. cell fast' (y * deststride + x * 4) = cell slow' (y * deststride + x * 4))"
proof -
  from transform_switch_cells [where t = WL_OUTPUT_TRANSFORM_NORMAL and le = le,
      OF _ _ src dest]
  obtain fast where
    f1: "transform_switch le WL_OUTPUT_TRANSFORM_NORMAL srcbuf srcstride destbuf w h deststride
           = Some fast"
    and f2: "\<forall>y<h. \<forall>x<w. cell fast (y * deststride + x * 4) = cell srcbuf (y * srcstride + x * 4)"
    by (auto simp add: rotated_def)
  from spec_per_pixel_copy_cells [where cmap = spec_map_identity and le = le
      and h = h and sh = h, OF _ src dest]
  obtain slow where
    s1: "spec_per_pixel_copy le spec_map_identity srcbuf srcstride destbuf w h deststride
           = Some slow"
    and s2: "\<forall>y<h. \<forall>x<w. cell slow (y * deststride + x * 4) = cell srcbuf (y * srcstride + x * 4)"
    by (auto simp add: spec_map_identity_def)
  from transform_switch_cells [where t = WL_OUTPUT_TRANSFORM_FLIPPED_180 and le = le,
      OF _ _ src dest]
  obtain fast' where
    f1': "transform_switch le WL_OUTPUT_TRANSFORM_FLIPPED_180 srcbuf srcstride destbuf w h deststride
           = Some fast'"
    and f2': "\<forall>y<h. \<forall>x<w. cell fast' (y * deststride + x * 4)
                = cell srcbuf ((h - y - 1) * srcstride + x * 4)"
    by (auto simp add: rotated_def)
  from spec_per_pixel_copy_cells [where cmap = "spec_map_flipped_180 h" and le = le
      and h = h and sh = h, OF _ src dest]
  obtain slow' where
    s1': "spec_per_pixel_copy le (spec_map_flipped_180 h) srcbuf srcstride destbuf w h deststride
           = Some slow'"
    and s2': "\<forall>y<h. \<forall>x<w. cell slow' (y * deststride + x * 4)
                = cell srcbuf ((h - y - 1) * srcstride + x * 4)"
    by (auto simp add: spec_map_flipped_180_def)
  from f2 s2 have "\<forall>y<h. \<forall>x<w. cell fast (y * deststride + x * 4) = cell slow (y * deststride + x * 4)"
    by simp
  moreover from f2' s2'
  have "\<forall>y<h. \<forall>x<w. cell fast' (y * deststride + x * 4) = cell slow' (y * deststride + x * 4)"
    by simp
  ultimately show ?thesis using f1 s1 f1' s1' by blast
qed

theorem row_copy_refines_pixel_map_witness:
  "\<exists>fast slow fast' slow'.
     transform_switch True WL_OUTPUT_TRANSFORM_NORMAL
       [1, 0, 0, 0, 9, 9, 9, 9, 2, 0, 0, 0, 9, 9, 9, 9] 8 (replicate 8 0) 1 2 4 = Some fast \<and>
     spec_per_pixel_copy True spec_map_identity
       [1, 0, 0, 0, 9, 9, 9, 9, 2, 0, 0, 0, 9, 9, 9, 9] 8 (replicate 8 0) 1 2 4 = Some slow \<and>
     cell fast (0 * 4 + 0 * 4) = cell slow (0 * 4 + 0 * 4) \<and>
     cell fast (1 * 4 + 0 * 4) = cell slow (1 * 4 + 0 * 4) \<and>
     transform_switch True WL_OUTPUT_TRANSFORM_FLIPPED_180
       [1, 0, 0, 0, 9, 9, 9, 9, 2, 0, 0, 0, 9, 9, 9, 9] 8 (replicate 8 0) 1 2 4 = Some fast' \<and>
     spec_per_pixel_copy True (spec_map_flipped_180 2)
       [1, 0, 0, 0, 9, 9, 9, 9, 2, 0, 0, 0, 9, 9, 9, 9] 8 (replicate 8 0) 1 2 4 = Some slow' \<and>
     cell fast' (0 * 4 + 0 * 4) = cell slow' (0 * 4 + 0 * 4) \<and>
     cell fast' (1 * 4 + 0 * 4) = cell slow' (1 * 4 + 0 * 4)"
proof -
  define src :: buffer where "src = [1, 0, 0, 0, 9, 9, 9, 9, 2, 0, 0, 0, 9, 9, 9, 9]"
  define dest :: buffer where "dest = replicate 8 0"
  have len: "1 * 4 \<le> (8 :: nat)" "2 * 8 \<le> length src" "1 * 4 \<le> (4 :: nat)" "2 * 4 \<le> length dest"
    by (simp_all add: src_def dest_def)
  from row_copy_refines_pixel_map [OF len, of True]
  obtain fast slow fast' slow' where
    r1: "transform_switch True WL_OUTPUT_TRANSFORM_NORMAL src 8 dest 1 2 4 = Some fast"
    and r2: "spec_per_pixel_copy True spec_map_identity src 8 dest 1 2 4 = Some slow"
    and c: "\<forall>y<2. \<forall>x<1. cell fast (y * 4 + x * 4) = cell slow (y * 4 + x * 4)"
    and r3: "transform_switch True WL_OUTPUT_TRANSFORM_FLIPPED_180 src 8 dest 1 2 4 = Some fast'"
    and r4: "spec_per_pixel_copy True (spec_map_flipped_180 2) src 8 dest 1 2 4 = Some slow'"
    and c': "\<forall>y<2. \<forall>x<1. cell fast' (y * 4 + x * 4) = cell slow' (y * 4 + x * 4)"
    by (elim exE conjE)
  have e1: "cell fast (0 * 4 + 0 * 4) = cell slow (0 * 4 + 0 * 4)"
    using c [rule_format, of 0 0] by simp
  have e2: "cell fast (1 * 4 + 0 * 4) = cell slow (1 * 4 + 0 * 4)"
    using c [rule_format, of 1 0] by simp
  have e3: "cell fast' (0 * 4 + 0 * 4) = cell slow' (0 * 4 + 0 * 4)"
    using c' [rule_format, of 0 0] by simp
  have e4: "cell fast' (1 * 4 + 0 * 4) = cell slow' (1 * 4 + 0 * 4)"
    using c' [rule_format, of 1 0] by simp
  have "\<exists>fast slow fast' slow'.
     transform_switch True WL_OUTPUT_TRANSFORM_NORMAL src 8 dest 1 2 4 = Some fast \<and>
     spec_per_pixel_copy True spec_map_identity src 8 dest 1 2 4 = Some slow \<and>
     cell fast (0 * 4 + 0 * 4) = cell slow (0 * 4 + 0 * 4) \<and>
     cell fast (1 * 4 + 0 * 4) = cell slow (1 * 4 + 0 * 4) \<and>
     transform_switch True WL_OUTPUT_TRANSFORM_FLIPPED_180 src 8 dest 1 2 4 = Some fast' \<and>
     spec_per_pixel_copy True (spec_map_flipped_180 2) src 8 dest 1 2 4 = Some slow' \<and>
     cell fast' (0 * 4 + 0 * 4) = cell slow' (0 * 4 + 0 * 4) \<and>
     cell fast' (1 * 4 + 0 * 4) = cell slow' (1 * 4 + 0 * 4)"
    by (rule exI [of _ fast], rule exI [of _ slow], rule exI [of _ fast'], rule exI [of _ slow'],
        intro conjI) (rule r1 r2 r3 r4 e1 e2 e3 e4)+
  then show ?thesis
    unfolding src_def dest_def .
qed

section \<open>Offsets computed in int\<close>

lemma for_loop_cong:
  "(\<And>i s. i \<in> set xs \<Longrightarrow> f i s = g i s) \<Longrightarrow> for_loop xs f s = for_loop xs g s"
  by (induction xs arbitrary: s) (auto split: option.splits)

lemma int_mul_Some: "a * b \<le> INT_MAX \<Longrightarrow> int_mul a b = Some (a * b)"
  by (simp add: int_mul_def)

lemma int_sized_args: "int_sized h stride \<Longrightarrow> w * 4 \<le> stride \<Longrightarrow> int_args w h stride"
  by (simp add: int_sized_def int_args_def)

lemma int_sized_products:
  assumes "int_sized h stride" "w * 4 \<le> stride" "y < h" "x < w"
  shows "y * stride \<le> INT_MAX" "x * 4 \<le> INT_MAX" "x * 3 \<le> INT_MAX"
proof -
  have "y * stride \<le> h * stride"
    using assms(3) by (intro mult_le_mono1) simp
  moreover have "h * stride \<le> INT_MAX"
    using assms(1) by (simp add: int_sized_def)
  ultimately show "y * stride \<le> INT_MAX"
    by (rule le_trans)
  show "x * 4 \<le> INT_MAX" "x * 3 \<le> INT_MAX"
    using assms(1,2,4) by (simp_all add: int_sized_def)
qed

lemma int_pixel_loops:
  assumes sized: "int_sized h stride" and w: "w * 4 \<le> stride"
  shows "(if int_args w h stride
          then for_loop [0..<h] (\<lambda>y. for_loop [0..<w] (\<lambda>x b.
                 do { row \<leftarrow> int_mul y stride; col \<leftarrow> int_mul x 4; kstep b (row + col) })) buf
          else None)
         = for_loop [0..<h] (\<lambda>y. for_loop [0..<w] (\<lambda>x b. kstep b (y * stride + x * 4))) buf"
proof -
  have "for_loop [0..<h] (\<lambda>y. for_loop [0..<w] (\<lambda>x b.
                 do { row \<leftarrow> int_mul y stride; col \<leftarrow> int_mul x 4; kstep b (row + col) })) buf
         = for_loop [0..<h] (\<lambda>y. for_loop [0..<w] (\<lambda>x b. kstep b (y * stride + x * 4))) buf"
  proof (rule for_loop_cong)
    fix y s assume "y \<in> set [0..<h]"
    then have y: "y < h" by simp
    show "for_loop [0..<w] (\<lambda>x b.
                 do { row \<leftarrow> int_mul y stride; col \<leftarrow> int_mul x 4; kstep b (row + col) }) s
          = for_loop [0..<w] (\<lambda>x b. kstep b (y * stride + x * 4)) s"
    proof (rule for_loop_cong)
      fix x b assume "x \<in> set [0..<w]"
      then have x: "x < w" by simp
      show "do { row \<leftarrow> int_mul y stride; col \<leftarrow> int_mul x 4; kstep b (row + col) }
            = kstep b (y * stride + x * 4)"
        using int_sized_products [OF sized w y x] by (simp add: int_mul_Some)
    qed
  qed
  with int_sized_args [OF sized w] show ?thesis by simp
qed

lemma int_widen_loops:
  assumes sized: "int_sized h stride" and w: "w * 4 \<le> stride"
  shows "(if int_args w h stride
          then for_loop [0..<h] (\<lambda>y. for_loop (rev [0..<w]) (\<lambda>x b.
                 do { srcrow \<leftarrow> int_mul y stride; srccol \<leftarrow> int_mul x 3;
                      dstrow \<leftarrow> int_mul y stride; dstcol \<leftarrow> int_mul x 4;
                      kstep b (srcrow + srccol) (dstrow + dstcol) })) buf
          else None)
         = for_loop [0..<h] (\<lambda>y. for_loop (rev [0..<w]) (\<lambda>x b.
             kstep b (y * stride + x * 3) (y * stride + x * 4))) buf"
proof -
  have "for_loop [0..<h] (\<lambda>y. for_loop (rev [0..<w]) (\<lambda>x b.
                 do { srcrow \<leftarrow> int_mul y stride; srccol \<leftarrow> int_mul x 3;
                      dstrow \<leftarrow> int_mul y stride; dstcol \<leftarrow> int_mul x 4;
                      kstep b (srcrow + srccol) (dstrow + dstcol) })) buf
         = for_loop [0..<h] (\<lambda>y. for_loop (rev [0..<w]) (\<lambda>x b.
             kstep b (y * stride + x * 3) (y * stride + x * 4))) buf"
  proof (rule for_loop_cong)
    fix y s assume "y \<in> set [0..<h]"
    then have y: "y < h" by simp
    show "for_loop (rev [0..<w]) (\<lambda>x b.
                 do { srcrow \<leftarrow> int_mul y stride; srccol \<leftarrow> int_mul x 3;
                      dstrow \<leftarrow> int_mul y stride; dstcol \<leftarrow> int_mul x 4;
                      kstep b (srcrow + srccol) (dstrow + dstcol) }) s
          = for_loop (rev [0..<w]) (\<lambda>x b. kstep b (y * stride + x * 3) (y * stride + x * 4)) s"
    proof (rule for_loop_cong)
      fix x b assume "x \<in> set (rev [0..<w])"
      then have x: "x < w" by simp
      show "do { srcrow \<leftarrow> int_mul y stride; srccol \<leftarrow> int_mul x 3;
                 dstrow \<leftarrow> int_mul y stride; dstcol \<leftarrow> int_mul x 4;
                 kstep b (srcrow + srccol) (dstrow + dstcol) }
            = kstep b (y * stride + x * 3) (y * stride + x * 4)"
        using int_sized_products [OF sized w y x] by (simp add: int_mul_Some)
    qed
  qed
  with int_sized_args [OF sized w] show ?thesis by simp
qed

lemma kernel_loops:
  assumes sized: "int_sized h stride" and w: "w * 4 \<le> stride"
  shows "cairo_rgb24_from_xrgb32_le le buf w h stride
           = for_loop [0..<h] (\<lambda>y. for_loop [0..<w] (\<lambda>x b.
               xrgb32_le_step le b (y * stride + x * 4))) buf"
    and "cairo_rgb24_from_xbgr32_le le buf w h stride
           = for_loop [0..<h] (\<lambda>y. for_loop [0..<w] (\<lambda>x b.
               xbgr32_le_step le b (y * stride + x * 4))) buf"
    and "cairo_rgb24_from_xrgb2101010_le le buf w h stride
           = for_loop [0..<h] (\<lambda>y. for_loop [0..<w] (\<lambda>x b.
               packed10_step xrgb2101010_pixel le b (y * stride + x * 4))) buf"
    and "cairo_rgb24_from_xbgr2101010_le le buf w h stride
           = for_loop [0..<h] (\<lambda>y. for_loop [0..<w] (\<lambda>x b.
               packed10_step xbgr2101010_pixel le b (y * stride + x * 4))) buf"
    and "cairo_rgb24_from_rgbx1010102_le le buf w h stride
           = for_loop [0..<h] (\<lambda>y. for_loop [0..<w] (\<lambda>x b.
               packed10_step rgbx1010102_pixel le b (y * stride + x * 4))) buf"
    and "cairo_rgb24_from_bgrx1010102_le le buf w h stride
           = for_loop [0..<h] (\<lambda>y. for_loop [0..<w] (\<lambda>x b.
               packed10_step bgrx1010102_pixel le b (y * stride + x * 4))) buf"
    and "cairo_rgb24_from_bgr888_le le buf w h stride
           = for_loop [0..<h] (\<lambda>y. for_loop (rev [0..<w]) (\<lambda>x b.
               bgr888_le_step le b (y * stride + x * 3) (y * stride + x * 4))) buf"
    and "cairo_rgb24_swap_rb le buf w h stride
           = for_loop [0..<h] (\<lambda>y. for_loop [0..<w] (\<lambda>x b.
               xbgr32_le_step le b (y * stride + x * 4))) buf"
  unfolding cairo_rgb24_from_xrgb32_le_def cairo_rgb24_from_xbgr32_le_def
    cairo_rgb24_from_xrgb2101010_le_def cairo_rgb24_from_xbgr2101010_le_def
    cairo_rgb24_from_rgbx1010102_le_def cairo_rgb24_from_bgrx1010102_le_def
    cairo_rgb24_from_bgr888_le_def cairo_rgb24_swap_rb_def
  by (rule int_pixel_loops [OF sized w] int_widen_loops [OF sized w])+

lemma int_sized_single: "int_sized 1 4"
  by (simp add: int_sized_def INT_MAX_def)

lemma one_cell: "1 * 4 \<le> (4 :: nat)"
  by simp

lemmas single_pixel_loops = kernel_loops [OF int_sized_single one_cell]

lemma for_loop_None:
  "i \<in> set xs \<Longrightarrow> (\<And>s. body i s = None) \<Longrightarrow> for_loop xs body s = None"
  by (induction xs arbitrary: s) (auto split: option.splits)

text \<open>
  Where a product overflows, the model has no result: at three rows with a stride of
  \<open>2 ^ 30\<close> bytes the row offset of the last row is not an \<^verbatim>\<open>int\<close>.
\<close>

lemma kernel_int_overflow:
  "cairo_rgb24_from_xbgr32_le le buf 1 3 (2 ^ 30) = None"
proof -
  have "for_loop [0..<3] (\<lambda>y. for_loop [0..<1] (\<lambda>x b.
               do { row \<leftarrow> int_mul y (2 ^ 30); col \<leftarrow> int_mul x 4;
                    xbgr32_le_step le b (row + col) })) buf = None"
    by (rule for_loop_None [where i = 2]) (simp_all add: int_mul_def INT_MAX_def)
  then show ?thesis
    by (simp add: cairo_rgb24_from_xbgr32_le_def)
qed

section \<open>Format kernels: the claims\<close>

lemma rgb24_word_le: "rgb24_word a b c = word32_le c b a 0"
  by (simp add: rgb24_word_def word32_le_def or.commute or.left_commute)

lemma red_of_rgb24_word: "red_of (rgb24_word a b c) = a"
  by (simp add: red_of_def rgb24_word_le byte2_word32_le)

lemma green_of_rgb24_word: "green_of (rgb24_word a b c) = b"
  by (simp add: green_of_def rgb24_word_le byte1_word32_le)

lemma blue_of_rgb24_word: "blue_of (rgb24_word a b c) = c"
  by (simp add: blue_of_def rgb24_word_le byte0_word32_le)

lemma unused_of_rgb24_word: "unused_of (rgb24_word a b c) = 0"
  by (simp add: unused_of_def rgb24_word_le byte3_word32_le)

lemma mask_0xFF: "(w :: 32 word) AND 0xFF = take_bit 8 w"
proof -
  have "(0xFF :: 32 word) = mask 8" by (simp add: mask_eq_exp_minus_1)
  then show ?thesis by (simp add: take_bit_eq_mask)
qed

lemma ten_bit_high: "\<not> bit (c :: 10 word) (10 + n)" "\<not> bit (c :: 10 word) (12 + n)"
  "\<not> bit (c :: 10 word) (14 + n)" "\<not> bit (c :: 10 word) (20 + n)"
  "\<not> bit (c :: 10 word) (22 + n)" "\<not> bit (c :: 10 word) (24 + n)"
  by (auto dest: bit_imp_le_length)

lemma two_bit_high: "\<not> bit (c :: 2 word) (2 + n)" "\<not> bit (c :: 2 word) (4 + n)"
  "\<not> bit (c :: 2 word) (12 + n)" "\<not> bit (c :: 2 word) (14 + n)" "\<not> bit (c :: 2 word) (22 + n)"
  "\<not> bit (c :: 2 word) (24 + n)"
  by (auto dest: bit_imp_le_length)

lemma field_2_10_10_10:
  "drop_bit 22 (pack_2_10_10_10 x c2 c1 c0) AND 0xFF = ucast (top8 c2)"
  "drop_bit 12 (pack_2_10_10_10 x c2 c1 c0) AND 0xFF = ucast (top8 c1)"
  "drop_bit 2 (pack_2_10_10_10 x c2 c1 c0) AND 0xFF = ucast (top8 c0)"
  unfolding mask_0xFF pack_2_10_10_10_def top8_def
  by (rule bit_word_eqI; auto simp add: bit_simps ten_bit_high two_bit_high dest: bit_imp_le_length)+

lemma field_10_10_10_2:
  "drop_bit 24 (pack_10_10_10_2 c2 c1 c0 x) AND 0xFF = ucast (top8 c2)"
  "drop_bit 14 (pack_10_10_10_2 c2 c1 c0 x) AND 0xFF = ucast (top8 c1)"
  "drop_bit 4 (pack_10_10_10_2 c2 c1 c0 x) AND 0xFF = ucast (top8 c0)"
  unfolding mask_0xFF pack_10_10_10_2_def top8_def
  by (rule bit_word_eqI; auto simp add: bit_simps ten_bit_high two_bit_high dest: bit_imp_le_length)+

lemma take_bit_8_ucast: "take_bit 8 (w :: 32 word) = ucast (ucast w :: byte)"
  by (rule bit_word_eqI) (auto simp add: bit_simps)

lemma xrgb2101010_pixel_word:
  "xrgb2101010_pixel c = rgb24_word (ucast (drop_bit 22 c)) (ucast (drop_bit 12 c)) (ucast (drop_bit 2 c))"
  by (simp add: xrgb2101010_pixel_def rgb24_word_def mask_0xFF take_bit_8_ucast)

lemma xbgr2101010_pixel_word:
  "xbgr2101010_pixel c = rgb24_word (ucast (drop_bit 2 c)) (ucast (drop_bit 12 c)) (ucast (drop_bit 22 c))"
  by (simp add: xbgr2101010_pixel_def rgb24_word_def mask_0xFF take_bit_8_ucast)

lemma rgbx1010102_pixel_word:
  "rgbx1010102_pixel c = rgb24_word (ucast (drop_bit 24 c)) (ucast (drop_bit 14 c)) (ucast (drop_bit 4 c))"
  by (simp add: rgbx1010102_pixel_def rgb24_word_def mask_0xFF take_bit_8_ucast)

lemma bgrx1010102_pixel_word:
  "bgrx1010102_pixel c = rgb24_word (ucast (drop_bit 4 c)) (ucast (drop_bit 14 c)) (ucast (drop_bit 24 c))"
  by (simp add: bgrx1010102_pixel_def rgb24_word_def mask_0xFF take_bit_8_ucast)

lemma xrgb2101010_pixel_pack:
  "xrgb2101010_pixel (pack_2_10_10_10 x r g b) = rgb24_word (top8 r) (top8 g) (top8 b)"
  by (simp add: xrgb2101010_pixel_def rgb24_word_def field_2_10_10_10)

lemma xbgr2101010_pixel_pack:
  "xbgr2101010_pixel (pack_2_10_10_10 x b g r) = rgb24_word (top8 r) (top8 g) (top8 b)"
  by (simp add: xbgr2101010_pixel_def rgb24_word_def field_2_10_10_10)

lemma rgbx1010102_pixel_pack:
  "rgbx1010102_pixel (pack_10_10_10_2 r g b x) = rgb24_word (top8 r) (top8 g) (top8 b)"
  by (simp add: rgbx1010102_pixel_def rgb24_word_def field_10_10_10_2)

lemma bgrx1010102_pixel_pack:
  "bgrx1010102_pixel (pack_10_10_10_2 b g r x) = rgb24_word (top8 r) (top8 g) (top8 b)"
  by (simp add: bgrx1010102_pixel_def rgb24_word_def field_10_10_10_2)

lemma top8_max: "top8 1023 = 255"
  by (simp add: top8_def)

lemma top8_zero: "top8 0 = 0"
  by (simp add: top8_def)

lemma unat_top8: "unat (top8 c) = unat c div 4"
proof -
  have "unat c < 2 ^ LENGTH(10)" by (rule unsigned_less)
  then have small: "unat c div 4 < 256" by simp
  have "unat (drop_bit 2 c) = drop_bit 2 (unat c)" by (rule unat_drop_bit_eq)
  then have shifted: "unat (drop_bit 2 c) = unat c div 4" by (simp add: drop_bit_eq_div)
  have "unat (top8 c) = take_bit 8 (unat (drop_bit 2 c))"
    unfolding top8_def unsigned_ucast_eq by simp
  also have "\<dots> = unat c div 4"
    unfolding shifted using small by (simp add: take_bit_eq_mod)
  finally show ?thesis .
qed

lemma kernel_single_pixel:
  assumes step: "\<And>b i. i + 4 \<le> length b \<Longrightarrow>
            kstep b i = Some (patch b i (bytes_of_word32 le (F (cell b i))))"
    and len: "length buf = 4"
  shows "for_loop [0..<1] (\<lambda>y. for_loop [0..<1] (\<lambda>x b. kstep b (y * 4 + x * 4))) buf
           = Some (bytes_of_word32 le (F buf))"
  using len by (simp add: step cell_def patch_def length_bytes_of_word32)

lemma packed10_single_pixel:
  "for_loop [0..<1] (\<lambda>y. for_loop [0..<1] (\<lambda>x b. packed10_step conv le b (y * 4 + x * 4)))
     (bytes_of_word32 True color) = Some (bytes_of_word32 le (conv color))"
  using kernel_single_pixel [where kstep = "packed10_step conv le"
      and F = "\<lambda>c. conv (word32_of_bytes True c)" and le = le
      and buf = "bytes_of_word32 True color", OF packed10_step_patch]
  by (simp add: length_bytes_of_word32 word32_of_bytes_of_word32)

lemma packed10_kernels_single_pixel:
  "cairo_rgb24_from_xrgb2101010_le le (bytes_of_word32 True color) 1 1 4
     = Some (bytes_of_word32 le (xrgb2101010_pixel color))"
  "cairo_rgb24_from_xbgr2101010_le le (bytes_of_word32 True color) 1 1 4
     = Some (bytes_of_word32 le (xbgr2101010_pixel color))"
  "cairo_rgb24_from_rgbx1010102_le le (bytes_of_word32 True color) 1 1 4
     = Some (bytes_of_word32 le (rgbx1010102_pixel color))"
  "cairo_rgb24_from_bgrx1010102_le le (bytes_of_word32 True color) 1 1 4
     = Some (bytes_of_word32 le (bgrx1010102_pixel color))"
  unfolding single_pixel_loops
  by (rule packed10_single_pixel)+

lemma packed8_kernels_single_pixel:
  "cairo_rgb24_from_xbgr32_le le [p0, p1, p2, p3] 1 1 4
     = Some (bytes_of_word32 le (rgb24_word p0 p1 p2))"
  "cairo_rgb24_from_xrgb32_le le [p0, p1, p2, p3] 1 1 4
     = Some (bytes_of_word32 le (rgb24_word p2 p1 p0))"
proof -
  show "cairo_rgb24_from_xbgr32_le le [p0, p1, p2, p3] 1 1 4
     = Some (bytes_of_word32 le (rgb24_word p0 p1 p2))"
    unfolding single_pixel_loops
    using kernel_single_pixel [where kstep = "xbgr32_le_step le"
      and F = "\<lambda>c. rgb24_word (c ! 0) (c ! 1) (c ! 2)" and le = le
      and buf = "[p0, p1, p2, p3]", OF xbgr32_le_step_patch]
    by simp
  show "cairo_rgb24_from_xrgb32_le le [p0, p1, p2, p3] 1 1 4
     = Some (bytes_of_word32 le (rgb24_word p2 p1 p0))"
    unfolding single_pixel_loops
    using kernel_single_pixel [where kstep = "xrgb32_le_step le"
      and F = "\<lambda>c. rgb24_word (c ! 2) (c ! 1) (c ! 0)" and le = le
      and buf = "[p0, p1, p2, p3]", OF xrgb32_le_step_patch]
    by simp
qed

text \<open>
  C5. Each of the four 10-bit kernels, run on one pixel whose little-endian word holds the
  channels \<open>r\<close>, \<open>g\<close>, \<open>b\<close> in the layout of its format, stores the native word with
  \<open>top8 r\<close> in the red byte, \<open>top8 g\<close> in the green byte and \<open>top8 b\<close> in the blue
  byte, on either byte order of the host. \<open>top8\<close> drops the two low bits: it sends 1023
  to 255 and 0 to 0, it is the quotient by 4 and not a rounding, and it never exceeds 255.
\<close>

theorem packed10_truncates:
  "cairo_rgb24_from_xrgb2101010_le le (bytes_of_word32 True (pack_2_10_10_10 x r g b)) 1 1 4
     = Some (bytes_of_word32 le (rgb24_word (top8 r) (top8 g) (top8 b))) \<and>
   cairo_rgb24_from_xbgr2101010_le le (bytes_of_word32 True (pack_2_10_10_10 x b g r)) 1 1 4
     = Some (bytes_of_word32 le (rgb24_word (top8 r) (top8 g) (top8 b))) \<and>
   cairo_rgb24_from_rgbx1010102_le le (bytes_of_word32 True (pack_10_10_10_2 r g b x)) 1 1 4
     = Some (bytes_of_word32 le (rgb24_word (top8 r) (top8 g) (top8 b))) \<and>
   cairo_rgb24_from_bgrx1010102_le le (bytes_of_word32 True (pack_10_10_10_2 b g r x)) 1 1 4
     = Some (bytes_of_word32 le (rgb24_word (top8 r) (top8 g) (top8 b))) \<and>
   red_of (rgb24_word (top8 r) (top8 g) (top8 b)) = top8 r \<and>
   green_of (rgb24_word (top8 r) (top8 g) (top8 b)) = top8 g \<and>
   blue_of (rgb24_word (top8 r) (top8 g) (top8 b)) = top8 b \<and>
   top8 1023 = 255 \<and> top8 0 = 0 \<and>
   unat (top8 c) = unat c div 4 \<and> unat (top8 c) \<le> 255"
proof -
  have "unat (top8 c) < 2 ^ LENGTH(8)" by (rule unsigned_less)
  then have range: "unat (top8 c) \<le> 255" by simp
  show ?thesis
    unfolding packed10_kernels_single_pixel xrgb2101010_pixel_pack xbgr2101010_pixel_pack
      rgbx1010102_pixel_pack bgrx1010102_pixel_pack
    by (intro conjI refl red_of_rgb24_word green_of_rgb24_word blue_of_rgb24_word
        top8_max top8_zero unat_top8 range)
qed

text \<open>
  C7. The kernel for XBGR run on the bytes \<open>r, g, b, x\<close> and the kernel for XRGB run on
  the bytes \<open>b, g, r, x\<close> store the same native word, with each channel in its canonical
  byte. So the bytes 0x10, 0x20, 0x30, 0xFF under the first and 0x30, 0x20, 0x10, 0xFF
  under the second give the same four bytes, on either byte order of the host. The first
  kernel is the one the second switch calls for XBGR8888 and ABGR8888, the second the one
  it calls for XRGB8888 and ARGB8888 on a host that is not little-endian.
\<close>

theorem swapped_orders_agree:
  "cairo_rgb24_from_xbgr32_le le [r, g, b, x] 1 1 4
     = Some (bytes_of_word32 le (rgb24_word r g b)) \<and>
   cairo_rgb24_from_xrgb32_le le [b, g, r, x] 1 1 4
     = Some (bytes_of_word32 le (rgb24_word r g b)) \<and>
   cairo_rgb24_from_xbgr32_le le [0x10, 0x20, 0x30, 0xFF] 1 1 4
     = cairo_rgb24_from_xrgb32_le le [0x30, 0x20, 0x10, 0xFF] 1 1 4 \<and>
   cairo_rgb24_from_xbgr32_le True [0x10, 0x20, 0x30, 0xFF] 1 1 4 = Some [0x30, 0x20, 0x10, 0] \<and>
   cairo_rgb24_from_xrgb32_le True [0x30, 0x20, 0x10, 0xFF] 1 1 4 = Some [0x30, 0x20, 0x10, 0] \<and>
   red_of (rgb24_word r g b) = r \<and> green_of (rgb24_word r g b) = g \<and>
   blue_of (rgb24_word r g b) = b \<and>
   format_switch le WL_SHM_FORMAT_XBGR8888 = cairo_rgb24_from_xbgr32_le le \<and>
   format_switch le WL_SHM_FORMAT_ABGR8888 = cairo_rgb24_from_xbgr32_le le \<and>
   format_switch False WL_SHM_FORMAT_XRGB8888 = cairo_rgb24_from_xrgb32_le False \<and>
   format_switch False WL_SHM_FORMAT_ARGB8888 = cairo_rgb24_from_xrgb32_le False"
proof -
  have bytes: "bytes_of_word32 True (rgb24_word 0x10 0x20 0x30) = [0x30, 0x20, 0x10, 0]"
    by (simp add: bytes_of_word32_def rgb24_word_le bytes_word32_le)
  have dispatch:
    "format_switch le WL_SHM_FORMAT_XBGR8888 = cairo_rgb24_from_xbgr32_le le"
    "format_switch le WL_SHM_FORMAT_ABGR8888 = cairo_rgb24_from_xbgr32_le le"
    "format_switch False WL_SHM_FORMAT_XRGB8888 = cairo_rgb24_from_xrgb32_le False"
    "format_switch False WL_SHM_FORMAT_ARGB8888 = cairo_rgb24_from_xrgb32_le False"
    by (simp_all add: fun_eq_iff)
  show ?thesis
    unfolding packed8_kernels_single_pixel bytes dispatch
    by (intro conjI refl red_of_rgb24_word green_of_rgb24_word blue_of_rgb24_word)
qed



section \<open>The unused byte and the whole function: the claims\<close>

lemma unused_bytes_zero_iff:
  "unused_bytes_zero le buf w h stride \<longleftrightarrow>
     (\<forall>y<h. \<forall>x<w. map_option unused_of (load32 le buf (y * stride + x * 4)) = Some 0)"
  by (auto simp add: unused_bytes_zero_def list_all_iff)

lemma cells_unused_zero:
  assumes len: "length buf' = length buf"
    and w: "w * 4 \<le> stride" and bound: "h * stride \<le> length buf"
    and cells: "\<forall>y<h. \<forall>x<w. cell buf' (y * stride + x * 4) = bytes_of_word32 le (G y x)"
    and G: "\<And>y x. unused_of (G y x) = 0"
  shows "unused_bytes_zero le buf' w h stride"
  unfolding unused_bytes_zero_iff
proof (intro allI impI)
  fix y x assume y: "y < h" and x: "x < w"
  have "y * stride + x * 4 + 4 \<le> length buf'"
    using cell_in_bounds [OF x y w bound] len by simp
  then have "load32 le buf' (y * stride + x * 4) = Some (G y x)"
    using cells y x by (simp add: load32_cell word32_of_bytes_of_word32)
  then show "map_option unused_of (load32 le buf' (y * stride + x * 4)) = Some 0"
    by (simp add: G)
qed

lemma cell_kernel_unused:
  assumes step: "\<And>b i. i + 4 \<le> length b \<Longrightarrow>
            kstep b i = Some (patch b i (bytes_of_word32 le (F (cell b i))))"
    and F: "\<And>c. unused_of (F c) = 0"
    and w: "w * 4 \<le> stride" and bound: "h * stride \<le> length buf"
  shows "\<exists>buf'. for_loop [0..<h] (\<lambda>y. for_loop [0..<w] (\<lambda>x b. kstep b (y * stride + x * 4))) buf
             = Some buf' \<and>
           length buf' = length buf \<and> unused_bytes_zero le buf' w h stride"
proof -
  have "\<exists>buf'. for_loop [0..<h] (\<lambda>y. for_loop [0..<w] (\<lambda>x b. kstep b (y * stride + x * 4))) buf
             = Some buf' \<and>
           length buf' = length buf \<and>
           (\<forall>y<h. \<forall>x<w. cell buf' (y * stride + x * 4)
                          = bytes_of_word32 le (F (cell buf (y * stride + x * 4))))"
  proof (rule kernel_cells [where kstep = kstep and F = F])
    show "kstep b i = Some (patch b i (bytes_of_word32 le (F (cell b i))))"
      if "i + 4 \<le> length b" for b i
      using that by (rule step)
  qed (rule w bound)+
  then obtain buf'
    where run: "for_loop [0..<h] (\<lambda>y. for_loop [0..<w] (\<lambda>x b. kstep b (y * stride + x * 4))) buf
             = Some buf'"
      and len: "length buf' = length buf"
      and cells: "\<forall>y<h. \<forall>x<w. cell buf' (y * stride + x * 4)
                          = bytes_of_word32 le (F (cell buf (y * stride + x * 4)))"
    by (elim exE conjE)
  have "unused_bytes_zero le buf' w h stride"
    by (rule cells_unused_zero [OF len w bound cells]) (rule F)
  with run len show ?thesis by (intro exI conjI)
qed

lemma unused_of_pixels:
  "unused_of (xrgb2101010_pixel c) = 0" "unused_of (xbgr2101010_pixel c) = 0"
  "unused_of (rgbx1010102_pixel c) = 0" "unused_of (bgrx1010102_pixel c) = 0"
  by (simp_all add: xrgb2101010_pixel_word xbgr2101010_pixel_word rgbx1010102_pixel_word
      bgrx1010102_pixel_word unused_of_rgb24_word)

lemma kernel_unused:
  assumes k: "k \<in> set kernels"
    and w: "w * 4 \<le> stride" and bound: "h * stride \<le> length buf"
    and sized: "int_sized h stride"
  shows "\<exists>buf'. k le buf w h stride = Some buf' \<and>
           length buf' = length buf \<and> unused_bytes_zero le buf' w h stride"
proof -
  have p8a: "\<exists>buf'. cairo_rgb24_from_xrgb32_le le buf w h stride = Some buf' \<and>
           length buf' = length buf \<and> unused_bytes_zero le buf' w h stride"
    unfolding kernel_loops [OF sized w]
    by (rule cell_kernel_unused [where kstep = "xrgb32_le_step le"
          and F = "\<lambda>c. rgb24_word (c ! 2) (c ! 1) (c ! 0)"])
      (simp_all add: xrgb32_le_step_patch unused_of_rgb24_word w bound)
  have p8b: "\<exists>buf'. cairo_rgb24_from_xbgr32_le le buf w h stride = Some buf' \<and>
           length buf' = length buf \<and> unused_bytes_zero le buf' w h stride"
    unfolding kernel_loops [OF sized w]
    by (rule cell_kernel_unused [where kstep = "xbgr32_le_step le"
          and F = "\<lambda>c. rgb24_word (c ! 0) (c ! 1) (c ! 2)"])
      (simp_all add: xbgr32_le_step_patch unused_of_rgb24_word w bound)
  have swap: "\<exists>buf'. cairo_rgb24_swap_rb le buf w h stride = Some buf' \<and>
           length buf' = length buf \<and> unused_bytes_zero le buf' w h stride"
    unfolding kernel_loops [OF sized w]
    by (rule cell_kernel_unused [where kstep = "xbgr32_le_step le"
          and F = "\<lambda>c. rgb24_word (c ! 0) (c ! 1) (c ! 2)"])
      (simp_all add: xbgr32_le_step_patch unused_of_rgb24_word w bound)
  have p10: "\<exists>buf'. for_loop [0..<h] (\<lambda>y. for_loop [0..<w]
                (\<lambda>x b. packed10_step conv le b (y * stride + x * 4))) buf = Some buf' \<and>
           length buf' = length buf \<and> unused_bytes_zero le buf' w h stride"
    if "\<And>c. unused_of (conv c) = 0" for conv
    by (rule cell_kernel_unused [where kstep = "packed10_step conv le"
          and F = "\<lambda>c. conv (word32_of_bytes True c)"])
      (simp_all add: packed10_step_patch that w bound)
  have widen: "\<exists>buf'. cairo_rgb24_from_bgr888_le le buf w h stride = Some buf' \<and>
           length buf' = length buf \<and> unused_bytes_zero le buf' w h stride"
  proof -
    from bgr888_rows [OF w bound order_refl, of le] obtain buf'
      where run: "cairo_rgb24_from_bgr888_le le buf w h stride = Some buf'"
        and frame: "unchanged_outside 0 (h * stride) buf buf'"
        and cells: "\<forall>y<h. \<forall>x<w. cell buf' (y * stride + x * 4)
                   = bytes_of_word32 le (rgb24_word (buf ! (y * stride + x * 3))
                       (buf ! (y * stride + x * 3 + 1)) (buf ! (y * stride + x * 3 + 2)))"
      unfolding kernel_loops [OF sized w] by (elim exE conjE)
    have len: "length buf' = length buf"
      using frame by (rule unchanged_outside_length)
    have "unused_bytes_zero le buf' w h stride"
      by (rule cells_unused_zero [OF len w bound cells]) (rule unused_of_rgb24_word)
    with run len show ?thesis by (intro exI conjI)
  qed
  from k consider "k = cairo_rgb24_from_xrgb32_le" | "k = cairo_rgb24_from_xbgr32_le"
    | "k = cairo_rgb24_from_xrgb2101010_le" | "k = cairo_rgb24_from_xbgr2101010_le"
    | "k = cairo_rgb24_from_rgbx1010102_le" | "k = cairo_rgb24_from_bgrx1010102_le"
    | "k = cairo_rgb24_from_bgr888_le" | "k = cairo_rgb24_swap_rb"
    unfolding kernels_def by auto
  then show ?thesis
  proof cases
    case 1 with p8a show ?thesis by simp
  next
    case 2 with p8b show ?thesis by simp
  next
    case 3 with p10 [OF unused_of_pixels(1)] show ?thesis
      by (simp add: kernel_loops [OF sized w])
  next
    case 4 with p10 [OF unused_of_pixels(2)] show ?thesis
      by (simp add: kernel_loops [OF sized w])
  next
    case 5 with p10 [OF unused_of_pixels(3)] show ?thesis
      by (simp add: kernel_loops [OF sized w])
  next
    case 6 with p10 [OF unused_of_pixels(4)] show ?thesis
      by (simp add: kernel_loops [OF sized w])
  next
    case 7 with widen show ?thesis by simp
  next
    case 8 with swap show ?thesis by simp
  qed
qed

lemma kernels_mem:
  "cairo_rgb24_from_xrgb32_le \<in> set kernels" "cairo_rgb24_from_xbgr32_le \<in> set kernels"
  "cairo_rgb24_from_xrgb2101010_le \<in> set kernels" "cairo_rgb24_from_xbgr2101010_le \<in> set kernels"
  "cairo_rgb24_from_rgbx1010102_le \<in> set kernels" "cairo_rgb24_from_bgrx1010102_le \<in> set kernels"
  "cairo_rgb24_from_bgr888_le \<in> set kernels" "cairo_rgb24_swap_rb \<in> set kernels"
  by (simp_all add: kernels_def)

lemma format_switch_unused:
  assumes run: "runs_kernel le format"
    and w: "w * 4 \<le> stride" and bound: "h * stride \<le> length buf"
    and sized: "int_sized h stride"
  shows "\<exists>buf'. format_switch le format buf w h stride = Some buf' \<and>
           length buf' = length buf \<and> unused_bytes_zero le buf' w h stride"
proof (cases format)
  case WL_SHM_FORMAT_RGB888
  from kernel_unused [OF kernels_mem(7) w bound sized, of le] obtain d
    where d: "cairo_rgb24_from_bgr888_le le buf w h stride = Some d" "length d = length buf"
    by (elim exE conjE)
  have "h * stride \<le> length d" using bound d(2) by simp
  from kernel_unused [OF kernels_mem(8) w this sized, of le] d show ?thesis
    by (simp add: WL_SHM_FORMAT_RGB888)
qed (use run kernel_unused [OF _ w bound sized, of _ le] kernels_mem in simp_all)

lemma format_switch_alpha:
  "p \<in> set alpha_formats \<Longrightarrow> format_switch le (fst p) = format_switch le (snd p)"
  by (auto simp add: alpha_formats_def fun_eq_iff)

lemma format_switch_no_kernel:
  "\<not> runs_kernel le format \<Longrightarrow> format_switch le format buf w h stride = Some buf"
  by (cases format) simp_all

text \<open>
  C10, as the code has it. Each of the eight kernels (seven \<^verbatim>\<open>cairo_rgb24_from_*\<close>
  functions and \<^verbatim>\<open>cairo_rgb24_swap_rb\<close>), run on rows that do not overlap and whose bytes
  an \<^verbatim>\<open>int\<close> can count, leaves bits 31 to 24 of the native word of every pixel it
  processes zero. The second switch treats each format with an alpha channel as
  it treats the format with X in its place. So the byte is zero after the switch for every
  format whose case calls a kernel; where the case calls none (XRGB8888, ARGB8888 and the
  default, on a little-endian host) the buffer is left as it is.
\<close>

theorem kernels_clear_unused_byte:
  assumes w: "width * 4 \<le> stride" and bound: "height * stride \<le> length buf"
    and sized: "int_sized height stride"
  shows "(\<forall>k\<in>set kernels. \<exists>buf'. k le buf width height stride = Some buf' \<and>
            unused_bytes_zero le buf' width height stride) \<and>
         (\<forall>p\<in>set alpha_formats. format_switch le (fst p) = format_switch le (snd p)) \<and>
         (runs_kernel le format \<longrightarrow>
            (\<exists>buf'. format_switch le format buf width height stride = Some buf' \<and>
               unused_bytes_zero le buf' width height stride)) \<and>
         (\<not> runs_kernel le format \<longrightarrow>
            format_switch le format buf width height stride = Some buf)"
proof (intro conjI ballI impI)
  fix k assume "k \<in> set kernels"
  from kernel_unused [OF this w bound sized, of le]
  show "\<exists>buf'. k le buf width height stride = Some buf' \<and>
            unused_bytes_zero le buf' width height stride"
    by (elim exE conjE) (rule exI, rule conjI)
next
  fix p assume "p \<in> set alpha_formats"
  then show "format_switch le (fst p) = format_switch le (snd p)"
    by (rule format_switch_alpha)
next
  assume "runs_kernel le format"
  from format_switch_unused [OF this w bound sized]
  show "\<exists>buf'. format_switch le format buf width height stride = Some buf' \<and>
               unused_bytes_zero le buf' width height stride"
    by (elim exE conjE) (rule exI, rule conjI)
next
  assume "\<not> runs_kernel le format"
  then show "format_switch le format buf width height stride = Some buf"
    by (rule format_switch_no_kernel)
qed

theorem kernels_clear_unused_byte_witness:
  "(\<exists>buf'. cairo_rgb24_from_xbgr32_le True [0x10, 0x20, 0x30, 0xFF] 1 1 4 = Some buf' \<and>
      unused_bytes_zero True buf' 1 1 4) \<and>
   format_switch True WL_SHM_FORMAT_ABGR8888 = format_switch True WL_SHM_FORMAT_XBGR8888 \<and>
   (\<exists>buf'. format_switch True WL_SHM_FORMAT_ABGR8888 [0x10, 0x20, 0x30, 0xFF] 1 1 4 = Some buf' \<and>
      unused_bytes_zero True buf' 1 1 4) \<and>
   format_switch True WL_SHM_FORMAT_ARGB8888 [0x10, 0x20, 0x30, 0xFF] 1 1 4
     = Some [0x10, 0x20, 0x30, 0xFF]"
proof -
  define buf :: buffer where "buf = [0x10, 0x20, 0x30, 0xFF]"
  have len: "1 * 4 \<le> (4 :: nat)" "1 * 4 \<le> length buf" "int_sized 1 4"
    by (simp_all add: buf_def int_sized_def INT_MAX_def)
  note abgr = kernels_clear_unused_byte [OF len, of True WL_SHM_FORMAT_ABGR8888]
  note argb = kernels_clear_unused_byte [OF len, of True WL_SHM_FORMAT_ARGB8888]
  have k: "cairo_rgb24_from_xbgr32_le \<in> set kernels"
    by (simp add: kernels_def)
  have p: "(WL_SHM_FORMAT_ABGR8888, WL_SHM_FORMAT_XBGR8888) \<in> set alpha_formats"
    by (simp add: alpha_formats_def)
  have one: "\<exists>buf'. cairo_rgb24_from_xbgr32_le True buf 1 1 4 = Some buf' \<and>
      unused_bytes_zero True buf' 1 1 4"
    using abgr [THEN conjunct1, rule_format, OF k] .
  have two: "format_switch True WL_SHM_FORMAT_ABGR8888 = format_switch True WL_SHM_FORMAT_XBGR8888"
    using abgr [THEN conjunct2, THEN conjunct1, rule_format, OF p] by simp
  have three: "\<exists>buf'. format_switch True WL_SHM_FORMAT_ABGR8888 buf 1 1 4 = Some buf' \<and>
      unused_bytes_zero True buf' 1 1 4"
    using abgr [THEN conjunct2, THEN conjunct2, THEN conjunct1] by simp
  have four: "format_switch True WL_SHM_FORMAT_ARGB8888 buf 1 1 4 = Some buf"
    using argb [THEN conjunct2, THEN conjunct2, THEN conjunct2] by simp
  from one two three four show ?thesis
    unfolding buf_def by (intro conjI)
qed

text \<open>
  C10, as the claim states it, fails for ARGB8888 on a little-endian host: no kernel
  runs, and the alpha byte 0xFF of the source pixel is the top byte of the pixel of the
  surface that \<^verbatim>\<open>load_background_from_buffer\<close> returns.
\<close>

theorem alpha_kept_counterexample:
  "load_background_from_buffer True rgb24_surface [0x10, 0x20, 0x30, 0xFF]
     WL_SHM_FORMAT_ARGB8888 1 1 4 WL_OUTPUT_TRANSFORM_NORMAL
     = ([], Inr \<lparr>surface_data = [0x10, 0x20, 0x30, 0xFF], surface_width = 1,
                  surface_height = 1, surface_stride = 4\<rparr>) \<and>
   map_option unused_of (load32 True [0x10, 0x20, 0x30, 0xFF] (0 * 4 + 0 * 4)) = Some 0xFF \<and>
   \<not> unused_bytes_zero True [0x10, 0x20, 0x30, 0xFF] 1 1 4"
proof -
  have "load32 True [0x10, 0x20, 0x30, 0xFF] 0 = Some (word32_le 0x10 0x20 0x30 0xFF)"
    by (simp add: load32_def cell_def word32_of_bytes_def)
  then have msb: "map_option unused_of (load32 True [0x10, 0x20, 0x30, 0xFF] 0) = Some 0xFF"
    by (simp add: unused_of_def byte3_word32_le)
  have run: "load_background_from_buffer True rgb24_surface [0x10, 0x20, 0x30, 0xFF]
     WL_SHM_FORMAT_ARGB8888 1 1 4 WL_OUTPUT_TRANSFORM_NORMAL
     = ([], Inr \<lparr>surface_data = [0x10, 0x20, 0x30, 0xFF], surface_width = 1,
                  surface_height = 1, surface_stride = 4\<rparr>)"
    by (simp add: load_background_from_buffer_def rgb24_surface_def rotated_def memcpy_def
        patch_def)
  from msb have "\<not> unused_bytes_zero True [0x10, 0x20, 0x30, 0xFF] 1 1 4"
    by (auto simp add: unused_bytes_zero_def)
  with run msb show ?thesis by simp
qed

lemma cell_kernel_words:
  assumes step: "\<And>b i. i + 4 \<le> length b \<Longrightarrow>
            kstep b i = Some (patch b i (bytes_of_word32 le (F (cell b i))))"
    and w: "w * 4 \<le> stride" and bound: "h * stride \<le> length buf"
  shows "\<exists>buf'. for_loop [0..<h] (\<lambda>y. for_loop [0..<w] (\<lambda>x b. kstep b (y * stride + x * 4))) buf
             = Some buf' \<and>
           (\<forall>y<h. \<forall>x<w. load32 le buf' (y * stride + x * 4)
                          = Some (F (cell buf (y * stride + x * 4))))"
proof -
  have "\<exists>buf'. for_loop [0..<h] (\<lambda>y. for_loop [0..<w] (\<lambda>x b. kstep b (y * stride + x * 4))) buf
             = Some buf' \<and>
           length buf' = length buf \<and>
           (\<forall>y<h. \<forall>x<w. cell buf' (y * stride + x * 4)
                          = bytes_of_word32 le (F (cell buf (y * stride + x * 4))))"
  proof (rule kernel_cells [where kstep = kstep and F = F])
    show "kstep b i = Some (patch b i (bytes_of_word32 le (F (cell b i))))"
      if "i + 4 \<le> length b" for b i
      using that by (rule step)
  qed (rule w bound)+
  then obtain buf'
    where run: "for_loop [0..<h] (\<lambda>y. for_loop [0..<w] (\<lambda>x b. kstep b (y * stride + x * 4))) buf
             = Some buf'"
      and len: "length buf' = length buf"
      and cells: "\<forall>y<h. \<forall>x<w. cell buf' (y * stride + x * 4)
                          = bytes_of_word32 le (F (cell buf (y * stride + x * 4)))"
    by (elim exE conjE)
  have "load32 le buf' (y * stride + x * 4) = Some (F (cell buf (y * stride + x * 4)))"
    if "y < h" "x < w" for y x
  proof -
    have "y * stride + x * 4 + 4 \<le> length buf'"
      using cell_in_bounds [OF that(2) that(1) w bound] len by simp
    then show ?thesis
      using cells that by (simp add: load32_cell word32_of_bytes_of_word32)
  qed
  then have "\<forall>y<h. \<forall>x<w. load32 le buf' (y * stride + x * 4)
                          = Some (F (cell buf (y * stride + x * 4)))"
    by simp
  with run show ?thesis by (intro exI conjI)
qed

lemma channels_word32_of_bytes_le:
  "red_of (word32_of_bytes True c) = c ! 2"
  "green_of (word32_of_bytes True c) = c ! 1"
  "blue_of (word32_of_bytes True c) = c ! 0"
  by (simp_all add: red_of_def green_of_def blue_of_def word32_of_bytes_def bytes_word32_le)

lemma format_switch_packed8:
  assumes chans: "packed8_channels format (cell d (y * stride + x * 4)) = Some (r, g, b)"
    and w: "w * 4 \<le> stride" and bound: "h * stride \<le> length d"
    and x: "x < w" and y: "y < h" and sized: "int_sized h stride"
  shows "\<exists>d'. format_switch le format d w h stride = Some d' \<and>
           map_option red_of (load32 le d' (y * stride + x * 4)) = Some r \<and>
           map_option green_of (load32 le d' (y * stride + x * 4)) = Some g \<and>
           map_option blue_of (load32 le d' (y * stride + x * 4)) = Some b"
proof -
  define c where "c = cell d (y * stride + x * 4)"
  have inb: "y * stride + x * 4 + 4 \<le> length d"
    by (rule cell_in_bounds [OF x y w bound])
  have orderB: "\<exists>d'. cairo_rgb24_from_xbgr32_le le d w h stride = Some d' \<and>
           map_option red_of (load32 le d' (y * stride + x * 4)) = Some (c ! 0) \<and>
           map_option green_of (load32 le d' (y * stride + x * 4)) = Some (c ! 1) \<and>
           map_option blue_of (load32 le d' (y * stride + x * 4)) = Some (c ! 2)"
  proof -
    have "\<exists>d'. cairo_rgb24_from_xbgr32_le le d w h stride = Some d' \<and>
            (\<forall>y<h. \<forall>x<w. load32 le d' (y * stride + x * 4)
               = Some (rgb24_word (cell d (y * stride + x * 4) ! 0)
                    (cell d (y * stride + x * 4) ! 1) (cell d (y * stride + x * 4) ! 2)))"
      unfolding kernel_loops [OF sized w]
      by (rule cell_kernel_words [where kstep = "xbgr32_le_step le"
            and F = "\<lambda>c. rgb24_word (c ! 0) (c ! 1) (c ! 2)"])
        (simp_all add: xbgr32_le_step_patch w bound)
    then obtain d' where run: "cairo_rgb24_from_xbgr32_le le d w h stride = Some d'"
      and words: "\<forall>y<h. \<forall>x<w. load32 le d' (y * stride + x * 4)
               = Some (rgb24_word (cell d (y * stride + x * 4) ! 0)
                    (cell d (y * stride + x * 4) ! 1) (cell d (y * stride + x * 4) ! 2))"
      by (elim exE conjE)
    from words [rule_format, OF y x] run show ?thesis
      by (simp add: c_def red_of_rgb24_word green_of_rgb24_word blue_of_rgb24_word)
  qed
  have orderA: "\<exists>d'. cairo_rgb24_from_xrgb32_le le d w h stride = Some d' \<and>
           map_option red_of (load32 le d' (y * stride + x * 4)) = Some (c ! 2) \<and>
           map_option green_of (load32 le d' (y * stride + x * 4)) = Some (c ! 1) \<and>
           map_option blue_of (load32 le d' (y * stride + x * 4)) = Some (c ! 0)"
  proof -
    have "\<exists>d'. cairo_rgb24_from_xrgb32_le le d w h stride = Some d' \<and>
            (\<forall>y<h. \<forall>x<w. load32 le d' (y * stride + x * 4)
               = Some (rgb24_word (cell d (y * stride + x * 4) ! 2)
                    (cell d (y * stride + x * 4) ! 1) (cell d (y * stride + x * 4) ! 0)))"
      unfolding kernel_loops [OF sized w]
      by (rule cell_kernel_words [where kstep = "xrgb32_le_step le"
            and F = "\<lambda>c. rgb24_word (c ! 2) (c ! 1) (c ! 0)"])
        (simp_all add: xrgb32_le_step_patch w bound)
    then obtain d' where run: "cairo_rgb24_from_xrgb32_le le d w h stride = Some d'"
      and words: "\<forall>y<h. \<forall>x<w. load32 le d' (y * stride + x * 4)
               = Some (rgb24_word (cell d (y * stride + x * 4) ! 2)
                    (cell d (y * stride + x * 4) ! 1) (cell d (y * stride + x * 4) ! 0))"
      by (elim exE conjE)
    from words [rule_format, OF y x] run show ?thesis
      by (simp add: c_def red_of_rgb24_word green_of_rgb24_word blue_of_rgb24_word)
  qed
  have asis: "map_option red_of (load32 True d (y * stride + x * 4)) = Some (c ! 2) \<and>
           map_option green_of (load32 True d (y * stride + x * 4)) = Some (c ! 1) \<and>
           map_option blue_of (load32 True d (y * stride + x * 4)) = Some (c ! 0)"
    using inb by (simp add: load32_cell channels_word32_of_bytes_le c_def)
  from chans consider
      (A) "format = WL_SHM_FORMAT_XRGB8888 \<or> format = WL_SHM_FORMAT_ARGB8888"
          "r = c ! 2" "g = c ! 1" "b = c ! 0"
    | (B) "format = WL_SHM_FORMAT_XBGR8888 \<or> format = WL_SHM_FORMAT_ABGR8888"
          "r = c ! 0" "g = c ! 1" "b = c ! 2"
    by (cases format) (simp_all add: c_def)
  then show ?thesis
  proof cases
    case A
    show ?thesis
    proof (cases le)
      case True
      with A asis show ?thesis by auto
    next
      case False
      with A orderA show ?thesis by auto
    qed
  next
    case B
    with orderB show ?thesis by auto
  qed
qed

lemma packed8_format_log: "packed8_channels format c = Some ch \<Longrightarrow> format_log format = []"
  by (cases format) simp_all

text \<open>
  C2. For a 4 by 4 source in one of the packed 8-bit formats and the 90 degree transform,
  \<^verbatim>\<open>load_background_from_buffer\<close> returns a 4 by 4 surface and logs nothing, and the
  pixel at destination \<open>(0, 0)\<close> has the red, green and blue of the source pixel at
  \<open>(0, 3)\<close> in the canonical bytes of its native word. The surface that cairo creates is
  any 4 by 4 surface whose buffer holds four rows of at least 16 bytes, with a stride that
  the kernels, which compute \<^verbatim>\<open>y * stride\<close> in \<^verbatim>\<open>int\<close>, can multiply by the row number.
\<close>

theorem load_rotated_90_square:
  assumes create: "create 4 4 = Some img"
    and dims: "surface_width img = 4" "surface_height img = 4"
    and dstride: "4 * 4 \<le> surface_stride img"
    and dlen: "4 * surface_stride img \<le> length (surface_data img)"
    and dint: "4 * surface_stride img \<le> INT_MAX"
    and src: "4 * 4 \<le> stride" "4 * stride \<le> length buf"
    and chans: "packed8_channels format (cell buf (3 * stride + 0 * 4)) = Some (r, g, b)"
  shows "\<exists>out. load_background_from_buffer le create buf format 4 4 stride WL_OUTPUT_TRANSFORM_90
                 = ([], Inr out) \<and>
           surface_width out = 4 \<and> surface_height out = 4 \<and>
           map_option red_of (load32 le (surface_data out) (0 * surface_stride out + 0 * 4)) = Some r \<and>
           map_option green_of (load32 le (surface_data out) (0 * surface_stride out + 0 * 4)) = Some g \<and>
           map_option blue_of (load32 le (surface_data out) (0 * surface_stride out + 0 * 4)) = Some b"
proof -
  define ds where "ds = surface_stride img"
  have "\<exists>d. transform_switch le WL_OUTPUT_TRANSFORM_90 buf stride (surface_data img) 4 4 ds = Some d \<and>
           length d = length (surface_data img) \<and>
           (\<forall>desty<4. \<forall>destx<4. cell d (desty * ds + destx * 4) =
              cell buf (snd (source_pixel WL_OUTPUT_TRANSFORM_90 4 4 destx desty) * stride
                        + fst (source_pixel WL_OUTPUT_TRANSFORM_90 4 4 destx desty) * 4))"
    by (rule transform_switch_cells [where srcwidth = 4 and srcheight = 4])
      (use src dstride dlen in \<open>simp_all add: rotated_def ds_def\<close>)
  then obtain d
    where run: "transform_switch le WL_OUTPUT_TRANSFORM_90 buf stride (surface_data img) 4 4 ds = Some d"
      and len: "length d = length (surface_data img)"
      and cells: "\<forall>desty<4. \<forall>destx<4. cell d (desty * ds + destx * 4) =
              cell buf (snd (source_pixel WL_OUTPUT_TRANSFORM_90 4 4 destx desty) * stride
                        + fst (source_pixel WL_OUTPUT_TRANSFORM_90 4 4 destx desty) * 4)"
    by (elim exE conjE)
  have "cell d (0 * ds + 0 * 4) = cell buf (3 * stride + 0 * 4)"
    using cells [rule_format, of 0 0] by simp
  with chans have chans': "packed8_channels format (cell d (0 * ds + 0 * 4)) = Some (r, g, b)"
    by simp
  have w: "4 * 4 \<le> ds" and bound: "4 * ds \<le> length d"
    using dstride dlen len by (simp_all add: ds_def)
  have sized: "int_sized 4 ds"
    using dint by (simp add: int_sized_def ds_def INT_MAX_def)
  from format_switch_packed8 [OF chans' w bound _ _ sized, of le] obtain d'
    where fmt: "format_switch le format d 4 4 ds = Some d'"
      and red: "map_option red_of (load32 le d' (0 * ds + 0 * 4)) = Some r"
      and green: "map_option green_of (load32 le d' (0 * ds + 0 * 4)) = Some g"
      and blue: "map_option blue_of (load32 le d' (0 * ds + 0 * 4)) = Some b"
    by auto
  have log: "format_log format = []"
    using chans by (rule packed8_format_log)
  have "load_background_from_buffer le create buf format 4 4 stride WL_OUTPUT_TRANSFORM_90
          = ([], Inr (img\<lparr>surface_data := d'\<rparr>))"
    using create dims run fmt log
    by (simp add: load_background_from_buffer_def rotated_def ds_def)
  with dims red green blue show ?thesis
    by (intro exI [of _ "img\<lparr>surface_data := d'\<rparr>"]) (simp add: ds_def)
qed

theorem load_rotated_90_square_witness:
  "\<exists>out. load_background_from_buffer True rgb24_surface
            (replicate 48 0 @ [0x10, 0x20, 0x30, 0xFF] @ replicate 12 0)
            WL_SHM_FORMAT_XBGR8888 4 4 16 WL_OUTPUT_TRANSFORM_90 = ([], Inr out) \<and>
         surface_width out = 4 \<and> surface_height out = 4 \<and>
         map_option red_of (load32 True (surface_data out) (0 * surface_stride out + 0 * 4)) = Some 0x10 \<and>
         map_option green_of (load32 True (surface_data out) (0 * surface_stride out + 0 * 4)) = Some 0x20 \<and>
         map_option blue_of (load32 True (surface_data out) (0 * surface_stride out + 0 * 4)) = Some 0x30"
proof (rule load_rotated_90_square)
  show "rgb24_surface 4 4 = Some \<lparr>surface_data = replicate (4 * 4 * 4) 0, surface_width = 4,
          surface_height = 4, surface_stride = 4 * 4\<rparr>"
    by (simp add: rgb24_surface_def)
  show "packed8_channels WL_SHM_FORMAT_XBGR8888
          (cell (replicate 48 0 @ [0x10, 0x20, 0x30, 0xFF] @ replicate 12 0) (3 * 16 + 0 * 4))
          = Some (0x10, 0x20, 0x30)"
    by (simp add: cell_def)
qed (simp_all add: INT_MAX_def)

section \<open>The round trip: the claim\<close>

lemma load_without_kernel:
  assumes "\<not> runs_kernel le format"
    and "(if rotated t then create h w else create w h) = Some img"
    and "transform_switch le t buf stride (surface_data img) (surface_width img)
           (surface_height img) (surface_stride img) = Some d"
  shows "load_background_from_buffer le create buf format w h stride t
           = (format_log format, Inr (img\<lparr>surface_data := d\<rparr>))"
  using assms by (simp add: load_background_from_buffer_def format_switch_no_kernel)

text \<open>
  C6. For each of the eight transforms \<open>t\<close> and every \<open>W\<close> by \<open>H\<close> source, the
  switch run with \<open>t\<close> and then run with \<open>inverse_transform t\<close> on its output gives
  back every cell of the source at its own place, on either byte order of the host. Where
  the second switch calls no kernel, \<^verbatim>\<open>load_background_from_buffer\<close> is the transform
  alone: called with \<open>t\<close> it returns a surface that is \<open>H\<close> wide and \<open>W\<close> high for the
  four rotated transforms, as it creates the surface with the two swapped, and called with
  \<open>inverse_transform t\<close> on that surface it returns a \<open>W\<close> by \<open>H\<close> surface with every
  cell of the source at its own place.
\<close>

theorem load_round_trip:
  assumes src: "W * 4 \<le> srcstride" "H * srcstride \<le> length srcbuf"
    and c1: "create (if rotated t then H else W) (if rotated t then W else H) = Some img1"
    and h1: "holds_image (if rotated t then H else W) (if rotated t then W else H) img1"
    and c2: "create W H = Some img2"
    and h2: "holds_image W H img2"
  shows "(\<exists>m f. transform_switch le t srcbuf srcstride (surface_data img1)
                  (surface_width img1) (surface_height img1) (surface_stride img1) = Some m \<and>
                transform_switch le (inverse_transform t) m (surface_stride img1) (surface_data img2)
                  (surface_width img2) (surface_height img2) (surface_stride img2) = Some f \<and>
                (\<forall>y<H. \<forall>x<W. cell f (y * surface_stride img2 + x * 4)
                                = cell srcbuf (y * srcstride + x * 4))) \<and>
         (\<not> runs_kernel le format \<longrightarrow>
            (\<exists>out1 out2.
               load_background_from_buffer le create srcbuf format W H srcstride t
                 = (format_log format, Inr out1) \<and>
               surface_width out1 = (if rotated t then H else W) \<and>
               surface_height out1 = (if rotated t then W else H) \<and>
               load_background_from_buffer le create (surface_data out1) format
                 (surface_width out1) (surface_height out1) (surface_stride out1)
                 (inverse_transform t)
                 = (format_log format, Inr out2) \<and>
               surface_width out2 = W \<and> surface_height out2 = H \<and>
               (\<forall>y<H. \<forall>x<W. cell (surface_data out2) (y * surface_stride out2 + x * 4)
                               = cell srcbuf (y * srcstride + x * 4))))"
proof -
  define w1 where "w1 = (if rotated t then H else W)"
  define h1 where "h1 = (if rotated t then W else H)"
  have d1: "surface_width img1 = w1" "surface_height img1 = h1"
    and mid: "w1 * 4 \<le> surface_stride img1" "h1 * surface_stride img1 \<le> length (surface_data img1)"
    using h1 by (simp_all add: holds_image_def w1_def h1_def)
  have d2: "surface_width img2 = W" "surface_height img2 = H"
    and fin: "W * 4 \<le> surface_stride img2" "H * surface_stride img2 \<le> length (surface_data img2)"
    using h2 by (simp_all add: holds_image_def)
  from switch_round_trip [OF src w1_def h1_def mid fin, of le]
  obtain m f where
    run1: "transform_switch le t srcbuf srcstride (surface_data img1) w1 h1 (surface_stride img1)
             = Some m"
    and run2: "transform_switch le (inverse_transform t) m (surface_stride img1) (surface_data img2)
             (if rotated (inverse_transform t) then h1 else w1)
             (if rotated (inverse_transform t) then w1 else h1) (surface_stride img2) = Some f"
    and W: "(if rotated (inverse_transform t) then h1 else w1) = W"
    and H: "(if rotated (inverse_transform t) then w1 else h1) = H"
    and cells: "\<forall>y<H. \<forall>x<W. cell f (y * surface_stride img2 + x * 4)
                                = cell srcbuf (y * srcstride + x * 4)"
    by (elim exE conjE)
  have run2': "transform_switch le (inverse_transform t) m (surface_stride img1) (surface_data img2)
             W H (surface_stride img2) = Some f"
    using run2 W H by simp
  have switch: "\<exists>m f. transform_switch le t srcbuf srcstride (surface_data img1)
                  (surface_width img1) (surface_height img1) (surface_stride img1) = Some m \<and>
                transform_switch le (inverse_transform t) m (surface_stride img1) (surface_data img2)
                  (surface_width img2) (surface_height img2) (surface_stride img2) = Some f \<and>
                (\<forall>y<H. \<forall>x<W. cell f (y * surface_stride img2 + x * 4)
                                = cell srcbuf (y * srcstride + x * 4))"
    using run1 run2' cells unfolding d1 d2 by (intro exI conjI)
  have whole: "\<exists>out1 out2.
               load_background_from_buffer le create srcbuf format W H srcstride t
                 = (format_log format, Inr out1) \<and>
               surface_width out1 = (if rotated t then H else W) \<and>
               surface_height out1 = (if rotated t then W else H) \<and>
               load_background_from_buffer le create (surface_data out1) format
                 (surface_width out1) (surface_height out1) (surface_stride out1)
                 (inverse_transform t)
                 = (format_log format, Inr out2) \<and>
               surface_width out2 = W \<and> surface_height out2 = H \<and>
               (\<forall>y<H. \<forall>x<W. cell (surface_data out2) (y * surface_stride out2 + x * 4)
                               = cell srcbuf (y * srcstride + x * 4))"
    if nk: "\<not> runs_kernel le format"
  proof -
    define out1 where "out1 = img1\<lparr>surface_data := m\<rparr>"
    define out2 where "out2 = img2\<lparr>surface_data := f\<rparr>"
    have created1: "(if rotated t then create H W else create W H) = Some img1"
      using c1 by (simp split: if_splits)
    have load1: "load_background_from_buffer le create srcbuf format W H srcstride t
                   = (format_log format, Inr out1)"
      unfolding out1_def using nk created1
    proof (rule load_without_kernel)
      show "transform_switch le t srcbuf srcstride (surface_data img1) (surface_width img1)
              (surface_height img1) (surface_stride img1) = Some m"
        using run1 by (simp add: d1)
    qed
    have o1: "surface_data out1 = m" "surface_width out1 = w1" "surface_height out1 = h1"
      "surface_stride out1 = surface_stride img1"
      by (simp_all add: out1_def d1)
    have created2: "(if rotated (inverse_transform t) then create h1 w1 else create w1 h1)
                      = Some img2"
      using c2 by (simp add: rotated_inverse_transform w1_def h1_def)
    have load2: "load_background_from_buffer le create m format w1 h1 (surface_stride img1)
                   (inverse_transform t) = (format_log format, Inr out2)"
      unfolding out2_def using nk created2
    proof (rule load_without_kernel)
      show "transform_switch le (inverse_transform t) m (surface_stride img1) (surface_data img2)
              (surface_width img2) (surface_height img2) (surface_stride img2) = Some f"
        using run2' by (simp add: d2)
    qed
    have o2: "surface_width out2 = W" "surface_height out2 = H"
      and cells2: "\<forall>y<H. \<forall>x<W. cell (surface_data out2) (y * surface_stride out2 + x * 4)
                               = cell srcbuf (y * srcstride + x * 4)"
      using cells by (simp_all add: out2_def d2)
    have dims1: "surface_width out1 = (if rotated t then H else W)"
      "surface_height out1 = (if rotated t then W else H)"
      by (simp_all add: o1 w1_def h1_def)
    have load2': "load_background_from_buffer le create (surface_data out1) format
                 (surface_width out1) (surface_height out1) (surface_stride out1)
                 (inverse_transform t) = (format_log format, Inr out2)"
      using load2 by (simp add: o1)
    from load1 dims1 load2' o2 cells2 show ?thesis
      by (intro exI conjI)
  qed
  from switch whole show ?thesis by (intro conjI impI)
qed


theorem load_round_trip_witness:
  "\<exists>out1 out2.
     load_background_from_buffer True rgb24_surface [1, 0, 0, 0, 2, 0, 0, 0]
       WL_SHM_FORMAT_XRGB8888 2 1 8 WL_OUTPUT_TRANSFORM_90 = ([], Inr out1) \<and>
     surface_width out1 = 1 \<and> surface_height out1 = 2 \<and>
     load_background_from_buffer True rgb24_surface (surface_data out1)
       WL_SHM_FORMAT_XRGB8888 (surface_width out1) (surface_height out1) (surface_stride out1)
       WL_OUTPUT_TRANSFORM_270 = ([], Inr out2) \<and>
     surface_width out2 = 2 \<and> surface_height out2 = 1 \<and>
     cell (surface_data out2) (0 * surface_stride out2 + 0 * 4)
       = cell [1, 0, 0, 0, 2, 0, 0, 0] (0 * 8 + 0 * 4) \<and>
     cell (surface_data out2) (0 * surface_stride out2 + 1 * 4)
       = cell [1, 0, 0, 0, 2, 0, 0, 0] (0 * 8 + 1 * 4)"
proof -
  define src :: buffer where "src = [1, 0, 0, 0, 2, 0, 0, 0]"
  define img1 where "img1 = \<lparr>surface_data = replicate (1 * 4 * 2) 0, surface_width = 1,
                              surface_height = 2, surface_stride = 1 * 4\<rparr>"
  define img2 where "img2 = \<lparr>surface_data = replicate (2 * 4 * 1) 0, surface_width = 2,
                              surface_height = 1, surface_stride = 2 * 4\<rparr>"
  have r: "rotated WL_OUTPUT_TRANSFORM_90"
    by (simp add: rotated_def)
  have src: "2 * 4 \<le> (8 :: nat)" "1 * 8 \<le> length src"
    by (simp_all add: src_def)
  have c1: "rgb24_surface (if rotated WL_OUTPUT_TRANSFORM_90 then 1 else 2)
              (if rotated WL_OUTPUT_TRANSFORM_90 then 2 else 1) = Some img1"
    by (simp add: r rgb24_surface_def img1_def)
  have h1: "holds_image (if rotated WL_OUTPUT_TRANSFORM_90 then 1 else 2)
              (if rotated WL_OUTPUT_TRANSFORM_90 then 2 else 1) img1"
    by (simp add: r holds_image_def img1_def)
  have c2: "rgb24_surface 2 1 = Some img2"
    by (simp add: rgb24_surface_def img2_def)
  have h2: "holds_image 2 1 img2"
    by (simp add: holds_image_def img2_def)
  have nk: "\<not> runs_kernel True WL_SHM_FORMAT_XRGB8888"
    by simp
  note inst = load_round_trip [OF src c1 h1 c2 h2, of True WL_SHM_FORMAT_XRGB8888,
      THEN conjunct2, rule_format, OF nk]
  then obtain out1 out2 where
    l1: "load_background_from_buffer True rgb24_surface src WL_SHM_FORMAT_XRGB8888 2 1 8
           WL_OUTPUT_TRANSFORM_90 = (format_log WL_SHM_FORMAT_XRGB8888, Inr out1)"
    and w1: "surface_width out1 = (if rotated WL_OUTPUT_TRANSFORM_90 then 1 else 2)"
    and h1: "surface_height out1 = (if rotated WL_OUTPUT_TRANSFORM_90 then 2 else 1)"
    and l2: "load_background_from_buffer True rgb24_surface (surface_data out1)
           WL_SHM_FORMAT_XRGB8888 (surface_width out1) (surface_height out1) (surface_stride out1)
           (inverse_transform WL_OUTPUT_TRANSFORM_90)
           = (format_log WL_SHM_FORMAT_XRGB8888, Inr out2)"
    and w2: "surface_width out2 = 2" and h2: "surface_height out2 = 1"
    and cells: "\<forall>y<1. \<forall>x<2. cell (surface_data out2) (y * surface_stride out2 + x * 4)
                               = cell src (y * 8 + x * 4)"
    by (elim exE conjE)
  have l1': "load_background_from_buffer True rgb24_surface src WL_SHM_FORMAT_XRGB8888 2 1 8
           WL_OUTPUT_TRANSFORM_90 = ([], Inr out1)"
    using l1 by simp
  have l2': "load_background_from_buffer True rgb24_surface (surface_data out1)
           WL_SHM_FORMAT_XRGB8888 (surface_width out1) (surface_height out1) (surface_stride out1)
           WL_OUTPUT_TRANSFORM_270 = ([], Inr out2)"
    using l2 by simp
  have w1': "surface_width out1 = 1" and h1': "surface_height out1 = 2"
    using w1 h1 r by simp_all
  have e0: "cell (surface_data out2) (0 * surface_stride out2 + 0 * 4) = cell src (0 * 8 + 0 * 4)"
    using cells [rule_format, of 0 0] by simp
  have e1: "cell (surface_data out2) (0 * surface_stride out2 + 1 * 4) = cell src (0 * 8 + 1 * 4)"
    using cells [rule_format, of 0 1] by simp
  have "\<exists>out1 out2.
     load_background_from_buffer True rgb24_surface src
       WL_SHM_FORMAT_XRGB8888 2 1 8 WL_OUTPUT_TRANSFORM_90 = ([], Inr out1) \<and>
     surface_width out1 = 1 \<and> surface_height out1 = 2 \<and>
     load_background_from_buffer True rgb24_surface (surface_data out1)
       WL_SHM_FORMAT_XRGB8888 (surface_width out1) (surface_height out1) (surface_stride out1)
       WL_OUTPUT_TRANSFORM_270 = ([], Inr out2) \<and>
     surface_width out2 = 2 \<and> surface_height out2 = 1 \<and>
     cell (surface_data out2) (0 * surface_stride out2 + 0 * 4) = cell src (0 * 8 + 0 * 4) \<and>
     cell (surface_data out2) (0 * surface_stride out2 + 1 * 4) = cell src (0 * 8 + 1 * 4)"
    using l1' w1' h1' l2' w2 h2 e0 e1 by (intro exI conjI)
  then show ?thesis
    unfolding src_def .
qed

end
